theory Spec2Isabelle
  imports Main
begin

section \<open>Characters and the string methods of Python that the program calls\<close>

text \<open>
  A line is a \<^typ>\<open>string\<close>. The model covers ASCII text: the classes below are the
  ASCII parts of Python's \<^verbatim>\<open>\w\<close>, \<^verbatim>\<open>\s\<close>, \<^verbatim>\<open>str.isupper\<close> and so on, and a
  character above 127 belongs to none of them.
\<close>

definition char_code :: "char \<Rightarrow> nat" where
  "char_code c = of_char c"

definition is_upper :: "char \<Rightarrow> bool" where
  "is_upper c = (65 \<le> char_code c \<and> char_code c \<le> 90)"

definition is_lower :: "char \<Rightarrow> bool" where
  "is_lower c = (97 \<le> char_code c \<and> char_code c \<le> 122)"

definition is_digit :: "char \<Rightarrow> bool" where
  "is_digit c = (48 \<le> char_code c \<and> char_code c \<le> 57)"

text \<open>\<^verbatim>\<open>\w\<close>: a letter, a digit or the underscore.\<close>

definition is_word :: "char \<Rightarrow> bool" where
  "is_word c = (is_lower c \<or> is_upper c \<or> is_digit c \<or> c = CHR ''_'')"

text \<open>
  \<^verbatim>\<open>\s\<close> and the characters \<^verbatim>\<open>str.strip()\<close> removes: tab, line feed, vertical tab,
  form feed, carriage return, the four separators 0x1C to 0x1F, and the space.
\<close>

definition is_space :: "char \<Rightarrow> bool" where
  "is_space c = ((9 \<le> char_code c \<and> char_code c \<le> 13) \<or> (28 \<le> char_code c \<and> char_code c \<le> 32))"

text \<open>The dot of a pattern compiled without DOTALL: any character but the line feed.\<close>

definition is_dot :: "char \<Rightarrow> bool" where
  "is_dot c = (c \<noteq> CHR 0x0A)"

definition lower_char :: "char \<Rightarrow> char" where
  "lower_char c = (if is_upper c then char_of (char_code c + 32) else c)"

definition lower :: "string \<Rightarrow> string" where
  "lower s = map lower_char s"

definition strip :: "string \<Rightarrow> string" where
  "strip s = rev (dropWhile is_space (rev (dropWhile is_space s)))"

text \<open>\<^verbatim>\<open>s.replace(c, "")\<close> for a one-character \<^verbatim>\<open>c\<close>.\<close>

definition remove_char :: "char \<Rightarrow> string \<Rightarrow> string" where
  "remove_char c s = filter (\<lambda>d. d \<noteq> c) s"

definition isdigit :: "string \<Rightarrow> bool" where
  "isdigit s = (s \<noteq> [] \<and> list_all is_digit s)"

text \<open>
  \<^verbatim>\<open>str.isupper\<close>: at least one cased character, and no cased character is lowercase;
  \<^verbatim>\<open>str.islower\<close> the other way round.
\<close>

definition isupper :: "string \<Rightarrow> bool" where
  "isupper s = (list_ex is_upper s \<and> \<not> list_ex is_lower s)"

definition islower :: "string \<Rightarrow> bool" where
  "islower s = (list_ex is_lower s \<and> \<not> list_ex is_upper s)"

text \<open>The classes on a character given by its eight bits, for evaluation.\<close>

lemma char_code_Char:
  "char_code (Char b0 b1 b2 b3 b4 b5 b6 b7) =
     of_bool b0 + 2 * of_bool b1 + 4 * of_bool b2 + 8 * of_bool b3 + 16 * of_bool b4
       + 32 * of_bool b5 + 64 * of_bool b6 + 128 * of_bool b7"
  by (simp add: char_code_def)

lemma is_upper_Char [code]:
  "is_upper (Char b0 b1 b2 b3 b4 b5 b6 b7) =
     (\<not> b7 \<and> b6 \<and> \<not> b5 \<and> (b0 \<or> b1 \<or> b2 \<or> b3 \<or> b4) \<and> \<not> (b4 \<and> b3 \<and> (b2 \<or> (b1 \<and> b0))))"
  unfolding is_upper_def char_code_Char
  by (cases b0; cases b1; cases b2; cases b3; cases b4; cases b5; cases b6; cases b7) simp_all

lemma is_lower_Char [code]:
  "is_lower (Char b0 b1 b2 b3 b4 b5 b6 b7) =
     (\<not> b7 \<and> b6 \<and> b5 \<and> (b0 \<or> b1 \<or> b2 \<or> b3 \<or> b4) \<and> \<not> (b4 \<and> b3 \<and> (b2 \<or> (b1 \<and> b0))))"
  unfolding is_lower_def char_code_Char
  by (cases b0; cases b1; cases b2; cases b3; cases b4; cases b5; cases b6; cases b7) simp_all

lemma is_digit_Char [code]:
  "is_digit (Char b0 b1 b2 b3 b4 b5 b6 b7) =
     (\<not> b7 \<and> \<not> b6 \<and> b5 \<and> b4 \<and> \<not> (b3 \<and> (b2 \<or> b1)))"
  unfolding is_digit_def char_code_Char
  by (cases b0; cases b1; cases b2; cases b3; cases b4; cases b5; cases b6; cases b7) simp_all

lemma is_space_Char [code]:
  "is_space (Char b0 b1 b2 b3 b4 b5 b6 b7) =
     (\<not> b7 \<and> \<not> b6 \<and>
       ((\<not> b5 \<and> \<not> b4 \<and> b3 \<and> (\<not> b2 \<and> (b1 \<or> b0) \<or> b2 \<and> \<not> b1))
        \<or> (\<not> b5 \<and> b4 \<and> b3 \<and> b2)
        \<or> (b5 \<and> \<not> b4 \<and> \<not> b3 \<and> \<not> b2 \<and> \<not> b1 \<and> \<not> b0)))"
  unfolding is_space_def char_code_Char
  by (cases b0; cases b1; cases b2; cases b3; cases b4; cases b5; cases b6; cases b7) simp_all

lemma lower_char_Char [code]:
  "lower_char (Char b0 b1 b2 b3 b4 b5 b6 b7) =
     Char b0 b1 b2 b3 b4 (b5 \<or> is_upper (Char b0 b1 b2 b3 b4 b5 b6 b7)) b6 b7"
  unfolding lower_char_def is_upper_def char_code_Char
  by (cases b0; cases b1; cases b2; cases b3; cases b4; cases b5; cases b6; cases b7) (simp_all add: char_of_def bit_0)

fun join :: "string \<Rightarrow> string list \<Rightarrow> string" where
  "join sep [] = []"
| "join sep [x] = x"
| "join sep (x # y # ys) = x @ sep @ join sep (y # ys)"

section \<open>The regular expressions of Python's re module\<close>

text \<open>
  The constructors are the ones the program's patterns are written with. Every
  quantifier of the program stands on a single character class, so \<open>Many C\<close> is
  \<^verbatim>\<open>C*\<close>, \<open>Many1 C\<close> is \<^verbatim>\<open>C+\<close>, \<open>Few1 C\<close> is the lazy \<^verbatim>\<open>C+?\<close> and \<open>Opt C\<close> is \<^verbatim>\<open>C?\<close>.
  \<open>Bnd\<close> is \<^verbatim>\<open>\b\<close>, \<open>Grp n r\<close> the \<open>n\<close>-th capturing group and \<open>Ref n\<close> the
  backreference \<^verbatim>\<open>\n\<close>.
\<close>

datatype regex =
    Lit string
  | Cls "char \<Rightarrow> bool"
  | Bnd
  | Many "char \<Rightarrow> bool"
  | Many1 "char \<Rightarrow> bool"
  | Few1 "char \<Rightarrow> bool"
  | Opt "char \<Rightarrow> bool"
  | Seq regex regex
  | Alt regex regex
  | Grp nat regex
  | Ref nat

text \<open>
  A matcher state: the character before the current position (for \<^verbatim>\<open>\b\<close>), the text
  still to be read, and the groups captured so far (the latest capture first).
\<close>

type_synonym caps = "(nat \<times> string) list"
type_synonym mstate = "char option \<times> string \<times> caps"

definition same_char :: "bool \<Rightarrow> char \<Rightarrow> char \<Rightarrow> bool" where
  "same_char ic x c = (if ic then lower_char x = lower_char c else x = c)"

text \<open>Reading a literal text; \<open>ic\<close> is the flag IGNORECASE.\<close>

fun eat :: "bool \<Rightarrow> string \<Rightarrow> char option \<Rightarrow> string \<Rightarrow> (char option \<times> string) option" where
  "eat ic [] p rest = Some (p, rest)"
| "eat ic (x # xs) p [] = None"
| "eat ic (x # xs) p (c # cs) = (if same_char ic x c then eat ic xs (Some c) cs else None)"

text \<open>
  The states after reading 0, 1, 2, ... characters of the class \<open>C\<close>, the shortest
  first.
\<close>

fun ups :: "(char \<Rightarrow> bool) \<Rightarrow> char option \<Rightarrow> string \<Rightarrow> caps \<Rightarrow> mstate list" where
  "ups C p [] g = [(p, [], g)]"
| "ups C p (c # cs) g = (p, c # cs, g) # (if C c then ups C (Some c) cs g else [])"

definition at_boundary :: "char option \<Rightarrow> string \<Rightarrow> bool" where
  "at_boundary p rest =
     ((case p of None \<Rightarrow> False | Some c \<Rightarrow> is_word c)
        \<noteq> (case rest of [] \<Rightarrow> False | c # _ \<Rightarrow> is_word c))"

text \<open>
  \<open>rx ic r st\<close> lists the states in which a match of \<open>r\<close> that starts in \<open>st\<close> can end,
  in the order in which the backtracking matcher of Python tries them: a greedy
  quantifier the longest first, a lazy one the shortest first, an alternation from
  left to right. The match Python returns is the head of the list.
\<close>

fun rx :: "bool \<Rightarrow> regex \<Rightarrow> mstate \<Rightarrow> mstate list" where
  "rx ic (Lit l) (p, rest, g) =
     (case eat ic l p rest of None \<Rightarrow> [] | Some (p', rest') \<Rightarrow> [(p', rest', g)])"
| "rx ic (Cls C) (p, rest, g) =
     (case rest of [] \<Rightarrow> [] | c # cs \<Rightarrow> if C c then [(Some c, cs, g)] else [])"
| "rx ic Bnd (p, rest, g) = (if at_boundary p rest then [(p, rest, g)] else [])"
| "rx ic (Many C) (p, rest, g) = rev (ups C p rest g)"
| "rx ic (Many1 C) (p, rest, g) = rev (tl (ups C p rest g))"
| "rx ic (Few1 C) (p, rest, g) = tl (ups C p rest g)"
| "rx ic (Opt C) (p, rest, g) = rev (take 2 (ups C p rest g))"
| "rx ic (Seq r1 r2) st = concat (map (rx ic r2) (rx ic r1 st))"
| "rx ic (Alt r1 r2) st = rx ic r1 st @ rx ic r2 st"
| "rx ic (Grp n r) (p, rest, g) =
     map (\<lambda>(p', rest', g'). (p', rest', (n, take (length rest - length rest') rest) # g'))
       (rx ic r (p, rest, g))"
| "rx ic (Ref n) (p, rest, g) =
     (case map_of g n of
        None \<Rightarrow> []
      | Some t \<Rightarrow> (case eat ic t p rest of None \<Rightarrow> [] | Some (p', rest') \<Rightarrow> [(p', rest', g)]))"

text \<open>
  One search of the compiled pattern, as \<^verbatim>\<open>re.search\<close> and every iteration of
  \<^verbatim>\<open>re.sub\<close>, \<^verbatim>\<open>re.split\<close>, \<^verbatim>\<open>re.findall\<close> and \<^verbatim>\<open>re.finditer\<close> do it: the start
  positions are tried from left to right, and the first position with a match wins.
  With \<open>adv\<close> (CPython's \<^verbatim>\<open>must_advance\<close>, set after an empty match) a match at the
  first position has to read at least one character. The result is the text skipped
  before the match, the matched text, and the state after it.
\<close>

definition match_at :: "bool \<Rightarrow> regex \<Rightarrow> bool \<Rightarrow> char option \<Rightarrow> string \<Rightarrow> mstate option" where
  "match_at ic r adv p rest =
     (case filter (\<lambda>(p', rest', g). \<not> adv \<or> length rest' < length rest) (rx ic r (p, rest, [])) of
        [] \<Rightarrow> None
      | st # _ \<Rightarrow> Some st)"

fun search :: "bool \<Rightarrow> regex \<Rightarrow> bool \<Rightarrow> char option \<Rightarrow> string \<Rightarrow> (string \<times> string \<times> mstate) option" where
  "search ic r adv p [] =
     (case match_at ic r adv p [] of None \<Rightarrow> None | Some st \<Rightarrow> Some ([], [], st))"
| "search ic r adv p (c # cs) =
     (case match_at ic r adv p (c # cs) of
        Some (p', rest', g) \<Rightarrow> Some ([], take (length (c # cs) - length rest') (c # cs), (p', rest', g))
      | None \<Rightarrow>
          (case search ic r False (Some c) cs of
             None \<Rightarrow> None
           | Some (gap, txt, st) \<Rightarrow> Some (c # gap, txt, st)))"

text \<open>Every match reads a prefix of the text, so a search leaves a shorter text behind.\<close>

lemma eat_suffix: "eat ic l p rest = Some (p', rest') \<Longrightarrow> \<exists>t. rest = t @ rest' \<and> length t = length l"
proof (induction ic l p rest rule: eat.induct)
  case (3 ic x xs p c cs)
  then obtain t where "cs = t @ rest'" "length t = length xs" by (auto split: if_splits)
  then have "c # cs = (c # t) @ rest' \<and> length (c # t) = length (x # xs)" by simp
  then show ?case by blast
qed auto

lemma ups_suffix: "(p', rest', g') \<in> set (ups C p rest g) \<Longrightarrow> \<exists>t. rest = t @ rest' \<and> list_all C t \<and> g' = g"
proof (induction C p rest g rule: ups.induct)
  case (2 C p c cs g)
  show ?case
  proof (cases "(p', rest', g') = (p, c # cs, g)")
    case True then show ?thesis by auto
  next
    case False
    with 2 have "C c" and "(p', rest', g') \<in> set (ups C (Some c) cs g)" by (auto split: if_splits)
    with 2 obtain t where "cs = t @ rest'" "list_all C t" "g' = g" by auto
    then have "c # cs = (c # t) @ rest' \<and> list_all C (c # t) \<and> g' = g" using \<open>C c\<close> by simp
    then show ?thesis by blast
  qed
qed auto

lemma in_tl: "x \<in> set (tl xs) \<Longrightarrow> x \<in> set xs"
  by (cases xs) auto

lemma rx_suffix: "(p', rest', g') \<in> set (rx ic r (p, rest, g)) \<Longrightarrow> \<exists>t. rest = t @ rest'"
proof (induction r arbitrary: p rest g p' rest' g')
  case (Lit l) then show ?case by (auto split: option.splits dest!: eat_suffix[OF sym])
next
  case (Cls C) then show ?case by (auto split: list.splits if_splits)
next
  case Bnd then show ?case by (auto split: if_splits)
next
  case (Many C) then show ?case by (auto dest!: ups_suffix)
next
  case (Many1 C) then show ?case by (auto dest!: in_tl ups_suffix)
next
  case (Few1 C) then show ?case by (auto dest!: in_tl ups_suffix)
next
  case (Opt C) then show ?case by (auto dest!: in_set_takeD ups_suffix)
next
  case (Seq r1 r2)
  then obtain q m h where a: "(q, m, h) \<in> set (rx ic r1 (p, rest, g))"
    and b: "(p', rest', g') \<in> set (rx ic r2 (q, m, h))" by auto
  from Seq.IH(1)[OF a] Seq.IH(2)[OF b] show ?case by auto
next
  case (Alt r1 r2) then show ?case by auto
next
  case (Grp n r) then show ?case by auto
next
  case (Ref n) then show ?case by (auto split: option.splits dest!: eat_suffix[OF sym])
qed

lemma rx_len: "(p', rest', g') \<in> set (rx ic r (p, rest, g)) \<Longrightarrow> length rest' \<le> length rest"
  by (auto dest!: rx_suffix)

lemma match_at_Some:
  "match_at ic r adv p rest = Some (p', rest', g) \<Longrightarrow>
     (p', rest', g) \<in> set (rx ic r (p, rest, [])) \<and> (adv \<longrightarrow> length rest' < length rest)"
proof -
  assume a: "match_at ic r adv p rest = Some (p', rest', g)"
  let ?f = "filter (\<lambda>(p', rest', g). \<not> adv \<or> length rest' < length rest) (rx ic r (p, rest, []))"
  from a obtain ys where "?f = (p', rest', g) # ys"
    by (cases ?f) (simp_all add: match_at_def)
  then have "(p', rest', g) \<in> set ?f"
    by simp
  then show ?thesis by auto
qed

lemma search_shape:
  "search ic r adv p rest = Some (gap, txt, (p', rest', g)) \<Longrightarrow>
     rest = gap @ txt @ rest' \<and> (adv \<and> gap = [] \<longrightarrow> txt \<noteq> [])"
proof (induction ic r adv p rest arbitrary: gap rule: search.induct)
  case (1 ic r adv p)
  then have "match_at ic r adv p [] = Some (p', rest', g)" "gap = []" "txt = []"
    by (auto split: option.splits)
  from match_at_Some[OF this(1)] rx_len[of p' rest' g ic r p "[]" "[]"] this show ?case by auto
next
  case (2 ic r adv p c cs)
  show ?case
  proof (cases "match_at ic r adv p (c # cs)")
    case None
    with 2 obtain gap2 where s: "search ic r False (Some c) cs = Some (gap2, txt, (p', rest', g))"
      and "gap = c # gap2" by (auto split: option.splits)
    from 2(1)[OF None s] \<open>gap = c # gap2\<close> show ?thesis by auto
  next
    case (Some st)
    with 2(2) have st: "st = (p', rest', g)" and gap: "gap = []"
      and tx: "txt = take (length (c # cs) - length rest') (c # cs)"
      by (auto split: prod.splits)
    from match_at_Some[OF Some[unfolded st]]
    have m: "(p', rest', g) \<in> set (rx ic r (p, c # cs, []))" and a: "adv \<longrightarrow> length rest' < length (c # cs)" by auto
    from rx_suffix[OF m] obtain t where t: "c # cs = t @ rest'" by blast
    have "take (length (t @ rest') - length rest') (t @ rest') = t" by simp
    with t tx have "txt = t" by simp
    with t gap a show ?thesis by auto
  qed
qed

text \<open>
  The loop shared by \<^verbatim>\<open>re.sub\<close>, \<^verbatim>\<open>re.split\<close>, \<^verbatim>\<open>re.findall\<close> and \<^verbatim>\<open>re.finditer\<close>:
  search, record the match, search again from its end. The result is the list of
  matches (the text skipped before it, the matched text, the groups) and the text
  after the last match.
\<close>

function scan :: "bool \<Rightarrow> regex \<Rightarrow> bool \<Rightarrow> char option \<Rightarrow> string \<Rightarrow> (string \<times> string \<times> caps) list \<times> string" where
  "scan ic r adv p rest =
     (case search ic r adv p rest of
        None \<Rightarrow> ([], rest)
      | Some (gap, tx, (p', rest', g)) \<Rightarrow>
          (case scan ic r (tx = []) p' rest' of (ms, tail) \<Rightarrow> ((gap, tx, g) # ms, tail)))"
  by pat_completeness auto
termination
proof (relation "measure (\<lambda>(ic, r, adv, p, rest). 2 * length rest + (if adv then 0 else 1))", goal_cases)
  case 1
  show ?case by simp
next
  case (2 ic r adv p rest x2 gap y tx st p' z rest' g)
  then have "search ic r adv p rest = Some (gap, tx, (p', rest', g))" by simp
  from search_shape[OF this] show ?case by (cases gap; cases tx) auto
qed

datatype piece = T string | G nat

text \<open>A group that took no part in the match expands to the empty text.\<close>

definition group_text :: "caps \<Rightarrow> nat \<Rightarrow> string" where
  "group_text g n = (case map_of g n of None \<Rightarrow> [] | Some t \<Rightarrow> t)"

fun expand :: "piece list \<Rightarrow> caps \<Rightarrow> string" where
  "expand [] g = []"
| "expand (T t # ps) g = t @ expand ps g"
| "expand (G n # ps) g = group_text g n @ expand ps g"

definition re_sub :: "bool \<Rightarrow> regex \<Rightarrow> piece list \<Rightarrow> string \<Rightarrow> string" where
  "re_sub ic r repl s =
     (case scan ic r False None s of
        (ms, tail) \<Rightarrow> concat (map (\<lambda>(gap, tx, g). gap @ expand repl g) ms) @ tail)"

text \<open>\<^verbatim>\<open>re.split\<close> for a pattern without groups.\<close>

definition re_split :: "bool \<Rightarrow> regex \<Rightarrow> string \<Rightarrow> string list" where
  "re_split ic r s = (case scan ic r False None s of (ms, tail) \<Rightarrow> map fst ms @ [tail])"

definition re_finditer :: "bool \<Rightarrow> regex \<Rightarrow> string \<Rightarrow> (string \<times> caps) list" where
  "re_finditer ic r s = map snd (fst (scan ic r False None s))"

definition re_search :: "bool \<Rightarrow> regex \<Rightarrow> string \<Rightarrow> bool" where
  "re_search ic r s = (search ic r False None s \<noteq> None)"

section \<open>The tables\<close>

text \<open>An alternation of literal texts, \<^verbatim>\<open>A|B|C\<close>, and the pattern \<^verbatim>\<open>\b(A|B|C)\b\<close>.\<close>

fun alts :: "string list \<Rightarrow> regex" where
  "alts [] = Cls (\<lambda>c. False)"
| "alts [w] = Lit w"
| "alts (w # v # ws) = Alt (Lit w) (alts (v # ws))"

definition whole_word :: "string list \<Rightarrow> regex" where
  "whole_word ws = Seq Bnd (Seq (Grp 1 (alts ws)) Bnd)"

definition LOGIC_KEYWORDS :: "(regex \<times> string) list" where
  "LOGIC_KEYWORDS =
     [(whole_word [''IF'', ''WHENEVER'', ''PROVIDED THAT'', ''ONLY WHEN''], ''IF''),
      (whole_word [''AND'', ''ALSO'', ''IN ADDITION TO''], ''AND''),
      (whole_word [''OR'', ''EITHER'', ''UNLESS''], ''OR''),
      (whole_word [''NOT'', ''IS NOT'', ''DIFFERENT FROM''], ''NOT''),
      (whole_word [''EQUALS'', ''IS SAME AS'', ''MATCHES''], ''==''),
      (whole_word [''GREATER THAN'', ''ABOVE''], ''>''),
      (whole_word [''LESS THAN'', ''BELOW''], ''<''),
      (whole_word [''TRUE'', ''YES'', ''ACTIVE''], ''TRUE''),
      (whole_word [''FALSE'', ''NO'', ''INACTIVE''], ''FALSE''),
      (whole_word [''IS''], ''=='')]"

text \<open>The dictionary in its insertion order, which is the order Python iterates it in.\<close>

definition VAR_SYNONYMS :: "(string \<times> string list) list" where
  "VAR_SYNONYMS =
     [(''user_type'', [''UserType'', ''user_type'', ''type_of_user'', ''User_Type'', ''uset_type'']),
      (''account_status'', [''ACCT_STATUS'', ''accountStatus'', ''status_of_account'', ''Acct_Status'', ''account_status'']),
      (''customer_tier'', [''Customer_Tier'', ''customerTier'', ''tier_of_customer'', ''customer_tier'']),
      (''purchase_amount'', [''purchaseAmount'', ''amount_of_purchase'', ''purchase_amount'']),
      (''user_id'', [''user_ID'', ''UserId'', ''userId'', ''user_id'', ''ID_of_user'']),
      (''current_time'', [''current_TIME'', ''CurrentTime'', ''currentTime'', ''current_time'', ''time_now'']),
      (''user_role'', [''User_Role'', ''user_role'', ''role_of_user'', ''userRole'']),
      (''item_count'', [''itemCount'', ''Item_Count'', ''count_of_items'', ''item_count'']),
      (''item_weight'', [''item_weight'', ''ItemWeight'', ''weight_of_item'', ''itemWeight'']),
      (''customer_rating'', [''customer_rating'', ''CustomerRating'', ''rating_of_customer'', ''customerRating'']),
      (''user_status'', [''user_status'', ''UserStatus'', ''status_of_user'', ''userStatus'']),
      (''is_user_admin'', [''is_User_Admin'', ''is_user_admin'', ''isAdmin'', ''IsUserAdmin''])]"

text \<open>
  The two reverse tables the module builds in one loop: the set of the lowercased
  aliases, and the dictionary from a lowercased alias to its canonical name (a later
  assignment to a key replaces an earlier one).
\<close>

definition ALL_VAR_NAMES :: "string set" where
  "ALL_VAR_NAMES = set (concat (map (\<lambda>(canon, syns). map lower syns) VAR_SYNONYMS))"

definition VAR_CANONICAL :: "string \<rightharpoonup> string" where
  "VAR_CANONICAL =
     map_of (rev (concat (map (\<lambda>(canon, syns). map (\<lambda>s. (lower s, canon)) syns) VAR_SYNONYMS)))"

section \<open>The normalizers\<close>

text \<open>
  \<^verbatim>\<open>re.sub(r"([a-z0-9])([A-Z])", r"\1_\2", s)\<close>, then
  \<^verbatim>\<open>re.sub(r"[\s\-]+", "_", s)\<close>, then \<^verbatim>\<open>s.lower()\<close>.
\<close>

definition is_separator :: "char \<Rightarrow> bool" where
  "is_separator c = (is_space c \<or> c = CHR ''-'')"

definition to_snake_case :: "string \<Rightarrow> string" where
  "to_snake_case s =
     lower
       (re_sub False (Many1 is_separator) [T ''_'']
          (re_sub False (Seq (Grp 1 (Cls (\<lambda>c. is_lower c \<or> is_digit c))) (Grp 2 (Cls is_upper)))
             [G 1, T ''_'', G 2] s))"

definition clean_var :: "string \<Rightarrow> string" where
  "clean_var var = remove_char (CHR 0x22) (remove_char (CHR 0x27) (strip var))"

text \<open>
  The test of the loop in \<^verbatim>\<open>normalize_var\<close>:
  \<^verbatim>\<open>v in syns or v_snake in syns or v.lower() in [x.lower() for x in syns]\<close>.
\<close>

definition entry_matches :: "string \<Rightarrow> string \<times> string list \<Rightarrow> bool" where
  "entry_matches v e =
     (case e of (canon, syns) \<Rightarrow>
        v \<in> set syns \<or> to_snake_case v \<in> set syns \<or> lower v \<in> set (map lower syns))"

text \<open>The first entry of the table that passes the test gives the name.\<close>

definition normalize_var :: "string \<Rightarrow> string" where
  "normalize_var var =
     (let v = clean_var var; v_snake = to_snake_case v in
      case find (entry_matches v) VAR_SYNONYMS of
        Some (canon, syns) \<Rightarrow> canon
      | None \<Rightarrow> v_snake)"

definition normalize_keywords :: "string \<Rightarrow> string" where
  "normalize_keywords line =
     fold (\<lambda>(pat, repl) line. re_sub True pat [T repl] line) LOGIC_KEYWORDS
       (re_sub True (Seq Bnd (Seq (Lit ''IS NOT'') Bnd)) [T ''NOT''] line)"

text \<open>\<^verbatim>\<open>([a-zA-Z_][a-zA-Z0-9_\- ]*)\s*(==|!=|>|<|AND|OR|NOT)\<close>\<close>

definition var_pattern :: regex where
  "var_pattern =
     Seq (Grp 1 (Seq (Cls (\<lambda>c. is_lower c \<or> is_upper c \<or> c = CHR ''_''))
                     (Many (\<lambda>c. is_word c \<or> c = CHR ''-'' \<or> c = CHR '' ''))))
       (Seq (Many is_space) (Grp 2 (alts [''=='', ''!='', ''>'', ''<'', ''AND'', ''OR'', ''NOT''])))"

text \<open>\<^verbatim>\<open>rf"\b{re.escape(s)}\b"\<close>: the text \<open>s\<close> itself between two word boundaries.\<close>

definition escaped_word :: "string \<Rightarrow> regex" where
  "escaped_word s = Seq Bnd (Seq (Lit s) Bnd)"

text \<open>
  The replacement texts of the two loops are names made of letters, digits and
  underscores, so \<^verbatim>\<open>re.sub\<close> inserts them as they are.
\<close>

definition normalize_variables :: "string \<Rightarrow> string" where
  "normalize_variables line =
     (let matches = map (\<lambda>(tx, g). (group_text g 1, group_text g 2)) (re_finditer False var_pattern line);
          line1 = fold (\<lambda>m line.
                     let orig = fst m; norm = normalize_var orig in
                     if orig \<noteq> norm then re_sub False (escaped_word orig) [T norm] line else line)
                   matches line
      in fold (\<lambda>(canon, syns) line.
                 fold (\<lambda>s line. if s \<noteq> canon then re_sub True (escaped_word s) [T canon] line else line)
                   syns line)
           VAR_SYNONYMS line1)"

definition normalize_literals :: "string \<Rightarrow> string" where
  "normalize_literals line =
     re_sub True (Seq (Lit ''=='') (Seq (Many is_space) (Lit ''FALSE''))) [T ''== FALSE'']
       (re_sub True (Seq (Lit ''=='') (Seq (Many is_space) (Lit ''TRUE''))) [T ''== TRUE''] line)"

section \<open>The detectors\<close>

text \<open>The loop of \<^verbatim>\<open>detect_redundancy\<close> over the conditions, with the set \<^verbatim>\<open>seen\<close>.\<close>

fun redundancy_loop :: "string list \<Rightarrow> string set \<Rightarrow> string list" where
  "redundancy_loop [] seen = []"
| "redundancy_loop (c # cs) seen =
     (let c_clean = strip (re_sub False (Seq Bnd (Seq (Grp 1 (alts [''THEN'', ''DO'', ''ELSE''])) (Seq Bnd (Many is_dot)))) [] c)
      in if c_clean \<in> seen then c_clean # redundancy_loop cs seen
         else redundancy_loop cs (insert c_clean seen))"

definition detect_redundancy :: "string \<Rightarrow> string list" where
  "detect_redundancy line =
     (let conds = re_split False (Alt (Seq Bnd (Seq (Lit ''AND'') Bnd)) (Seq Bnd (Seq (Lit ''OR'') Bnd))) line;
          conds = map strip (filter (\<lambda>c. strip c \<noteq> []) conds)
      in redundancy_loop conds {})"

text \<open>\<^verbatim>\<open>IF (.+?) == (.+?) (THEN|DO).+ELSE IF \1 == \2\<close>\<close>

definition contradiction_pattern :: regex where
  "contradiction_pattern =
     Seq (Lit ''IF '') (Seq (Grp 1 (Few1 is_dot)) (Seq (Lit '' == '') (Seq (Grp 2 (Few1 is_dot))
       (Seq (Lit '' '') (Seq (Grp 3 (alts [''THEN'', ''DO''])) (Seq (Many1 is_dot)
         (Seq (Lit ''ELSE IF '') (Seq (Ref 1) (Seq (Lit '' == '') (Ref 2))))))))))"

definition detect_contradiction :: "string \<Rightarrow> bool" where
  "detect_contradiction line = re_search False contradiction_pattern line"

text \<open>\<^verbatim>\<open>re.findall(r'\b[a-zA-Z_][a-zA-Z0-9_]*\b', line)\<close>: the matched texts.\<close>

definition tokens :: "string \<Rightarrow> string list" where
  "tokens line =
     map fst (re_finditer False
       (Seq Bnd (Seq (Cls (\<lambda>c. is_lower c \<or> is_upper c \<or> c = CHR ''_'')) (Seq (Many is_word) Bnd))) line)"

definition detect_typos :: "string \<Rightarrow> string list" where
  "detect_typos line =
     filter (\<lambda>t. (lower t \<notin> ALL_VAR_NAMES \<and> lower t \<notin> dom VAR_CANONICAL)
                 \<and> (length t > 4 \<and> \<not> isupper t \<and> \<not> islower t))
       (tokens line)"

text \<open>\<^verbatim>\<open>(\w+)\s*(==|!=|>|<)\s*([\'\"]?)([\w\s]+)\3\<close>\<close>

definition is_quote :: "char \<Rightarrow> bool" where
  "is_quote c = (c = CHR 0x27 \<or> c = CHR 0x22)"

definition is_value_char :: "char \<Rightarrow> bool" where
  "is_value_char c = (is_word c \<or> is_space c)"

definition illogical_pattern :: regex where
  "illogical_pattern =
     Seq (Grp 1 (Many1 is_word)) (Seq (Many is_space) (Seq (Grp 2 (alts [''=='', ''!='', ''>'', ''<'']))
       (Seq (Many is_space) (Seq (Grp 3 (Opt is_quote))
         (Seq (Grp 4 (Many1 is_value_char)) (Ref 3))))))"

text \<open>What one match of the pattern adds to the list \<^verbatim>\<open>illogical\<close>.\<close>

definition illogical_of :: "caps \<Rightarrow> string list" where
  \<open>illogical_of g =
     (let quote = group_text g 3; val = group_text g 4 in
      if quote \<noteq> [] then
        (if isdigit (strip val) then [''Comparing string literal "'' @ val @ ''" as number''] else [])
      else
        (if \<not> isdigit (strip val) then [''Comparing unquoted value '' @ val @ '' as string''] else []))\<close>

definition detect_illogical :: "string \<Rightarrow> string list" where
  "detect_illogical line =
     concat (map (\<lambda>(tx, g). illogical_of g) (re_finditer False illogical_pattern line))"

section \<open>The line processor\<close>

definition normalize :: "string \<Rightarrow> string" where
  "normalize line = normalize_literals (normalize_variables (normalize_keywords line))"

definition process_line :: "string \<Rightarrow> string list" where
  "process_line line0 =
     (let orig_line = strip line0;
          line = normalize orig_line;
          redundants = detect_redundancy line;
          contradiction = detect_contradiction line;
          typos = detect_typos line;
          illogical = detect_illogical line
      in if redundants \<noteq> [] then
           [''FLAG: Redundant condition '' @ [CHR 0x27] @ hd redundants @ [CHR 0x27] @ '' in line: '' @ orig_line]
         else if contradiction then
           [''FLAG: Contradictory/unreachable logic in line: '' @ orig_line]
         else if typos \<noteq> [] then
           [''FLAG: Potential typo(s) in variable name(s): '' @ join '', '' typos @ '' in line: '' @ orig_line]
         else if illogical \<noteq> [] then
           [''FLAG: Illogical comparison: '' @ join '', '' illogical @ '' in line: '' @ orig_line]
         else [line])"

section \<open>Facts about the matcher\<close>

text \<open>The character before the position reached after reading the text \<open>t\<close>.\<close>

definition lastp :: "char option \<Rightarrow> string \<Rightarrow> char option" where
  "lastp p t = (if t = [] then p else Some (last t))"

lemma lastp_Nil [simp]: "lastp p [] = p"
  by (simp add: lastp_def)

lemma lastp_Cons [simp]: "lastp p (c # t) = lastp (Some c) t"
  by (simp add: lastp_def)

lemma lastp_append [simp]: "lastp (lastp p s) t = lastp p (s @ t)"
  by (simp add: lastp_def)

lemma eat_iff:
  "eat False l p rest = Some (p', rest') \<longleftrightarrow> rest = l @ rest' \<and> p' = lastp p l"
  by (induction "False" l p rest rule: eat.induct) (auto simp: same_char_def)

lemma ups_closed:
  "ups C p rest g =
     map (\<lambda>k. (lastp p (take k rest), drop k rest, g)) [0..<Suc (length (takeWhile C rest))]"
proof (induction rest arbitrary: p)
  case Nil
  show ?case by simp
next
  case (Cons c cs)
  show ?case
  proof (cases "C c")
    case False
    then show ?thesis by simp
  next
    case True
    let ?n = "length (takeWhile C cs)"
    have "[0..<Suc (Suc ?n)] = 0 # map Suc [0..<Suc ?n]"
      by (simp add: map_Suc_upt upt_conv_Cons del: upt_Suc)
    then show ?thesis
      using True Cons[of "Some c"] by (simp add: comp_def del: upt_Suc)
  qed
qed


lemma takeWhile_prefix_len:
  "list_all C t \<Longrightarrow> length t \<le> length (takeWhile C (t @ r))"
  by (induction t) auto

lemma ups_mem:
  "(p', rest', g') \<in> set (ups C p rest g) \<longleftrightarrow>
     (\<exists>t. rest = t @ rest' \<and> list_all C t \<and> p' = lastp p t) \<and> g' = g"
proof
  assume "(p', rest', g') \<in> set (ups C p rest g)"
  then have "(p', rest', g') \<in> (\<lambda>k. (lastp p (take k rest), drop k rest, g)) ` {0..<Suc (length (takeWhile C rest))}"
    unfolding ups_closed by (simp del: upt_Suc)
  then obtain k where k: "k \<le> length (takeWhile C rest)"
    and e: "p' = lastp p (take k rest)" "rest' = drop k rest" "g' = g"
    by (force simp: less_Suc_eq_le)
  have "take k rest = take k (takeWhile C rest)"
    using k by (metis append_eq_conv_conj takeWhile_dropWhile_id take_all_iff take_append
        diff_is_0_eq take_0 append_Nil2)
  then have "list_all C (take k rest)"
    by (metis in_set_takeD list_all_iff set_takeWhileD)
  moreover have "rest = take k rest @ rest'"
    using e by simp
  ultimately show "(\<exists>t. rest = t @ rest' \<and> list_all C t \<and> p' = lastp p t) \<and> g' = g"
    using e by blast
next
  assume "(\<exists>t. rest = t @ rest' \<and> list_all C t \<and> p' = lastp p t) \<and> g' = g"
  then obtain t where t: "rest = t @ rest'" "list_all C t" "p' = lastp p t" "g' = g"
    by blast
  have "length t \<le> length (takeWhile C rest)"
    using t takeWhile_prefix_len by blast
  moreover have "(p', rest', g') = (lastp p (take (length t) rest), drop (length t) rest, g)"
    using t by simp
  ultimately show "(p', rest', g') \<in> set (ups C p rest g)"
    unfolding ups_closed by (auto simp del: upt_Suc simp: image_iff intro!: bexI[of _ "length t"])
qed

lemma tl_ups_mem:
  "(p', rest', g') \<in> set (tl (ups C p rest g)) \<longleftrightarrow>
     (\<exists>t. t \<noteq> [] \<and> rest = t @ rest' \<and> list_all C t \<and> p' = lastp p t) \<and> g' = g"
proof (cases rest)
  case Nil
  then show ?thesis by auto
next
  case (Cons c cs)
  show ?thesis
  proof (cases "C c")
    case False
    then show ?thesis using Cons by (auto simp: Cons_eq_append_conv)
  next
    case True
    have "(p', rest', g') \<in> set (tl (ups C p rest g)) \<longleftrightarrow>
            (\<exists>t. cs = t @ rest' \<and> list_all C t \<and> p' = lastp (Some c) t) \<and> g' = g"
      using True Cons by (simp add: ups_mem)
    also have "\<dots> \<longleftrightarrow> (\<exists>t. t \<noteq> [] \<and> rest = t @ rest' \<and> list_all C t \<and> p' = lastp p t) \<and> g' = g"
    proof -
      have "(\<exists>t. cs = t @ rest' \<and> list_all C t \<and> p' = lastp (Some c) t)
              \<longleftrightarrow> (\<exists>t. t \<noteq> [] \<and> rest = t @ rest' \<and> list_all C t \<and> p' = lastp p t)"
      proof
        assume "\<exists>t. cs = t @ rest' \<and> list_all C t \<and> p' = lastp (Some c) t"
        then obtain t where "cs = t @ rest'" "list_all C t" "p' = lastp (Some c) t" by blast
        then have "c # t \<noteq> [] \<and> rest = (c # t) @ rest' \<and> list_all C (c # t) \<and> p' = lastp p (c # t)"
          using True Cons by simp
        then show "\<exists>t. t \<noteq> [] \<and> rest = t @ rest' \<and> list_all C t \<and> p' = lastp p t" by blast
      next
        assume "\<exists>t. t \<noteq> [] \<and> rest = t @ rest' \<and> list_all C t \<and> p' = lastp p t"
        then obtain t where t: "t \<noteq> []" "rest = t @ rest'" "list_all C t" "p' = lastp p t" by blast
        then obtain u where "t = c # u" using Cons by (cases t) auto
        then have "cs = u @ rest' \<and> list_all C u \<and> p' = lastp (Some c) u"
          using t Cons by simp
        then show "\<exists>t. cs = t @ rest' \<and> list_all C t \<and> p' = lastp (Some c) t" by blast
      qed
      then show ?thesis by simp
    qed
    finally show ?thesis .
  qed
qed


lemma rx_Lit_mem:
  "(p', rest', g') \<in> set (rx False (Lit l) (p, rest, g)) \<longleftrightarrow>
     rest = l @ rest' \<and> p' = lastp p l \<and> g' = g"
proof (cases "eat False l p rest")
  case None
  then show ?thesis using eat_iff[of l p rest] by auto
next
  case (Some a)
  then show ?thesis using eat_iff[of l p rest "fst a" "snd a"] by (cases a) auto
qed

lemma rx_Ref_mem:
  "(p', rest', g') \<in> set (rx False (Ref n) (p, rest, g)) \<longleftrightarrow>
     (\<exists>t. map_of g n = Some t \<and> rest = t @ rest' \<and> p' = lastp p t) \<and> g' = g"
proof (cases "map_of g n")
  case None
  then show ?thesis by simp
next
  case (Some t)
  have "(p', rest', g') \<in> set (rx False (Lit t) (p, rest, g)) \<longleftrightarrow>
          (p', rest', g') \<in> set (rx False (Ref n) (p, rest, g))"
    using Some by simp
  then show ?thesis using Some rx_Lit_mem[of p' rest' g' t p rest g] by auto
qed

lemma rx_Seq_mem:
  "st' \<in> set (rx ic (Seq a b) st) \<longleftrightarrow> (\<exists>m. m \<in> set (rx ic a st) \<and> st' \<in> set (rx ic b m))"
  by auto

lemma rx_Alt_mem:
  "st' \<in> set (rx ic (Alt a b) st) \<longleftrightarrow> st' \<in> set (rx ic a st) \<or> st' \<in> set (rx ic b st)"
  by simp

lemma rx_Many_mem:
  "(p', rest', g') \<in> set (rx ic (Many C) (p, rest, g)) \<longleftrightarrow>
     (\<exists>t. rest = t @ rest' \<and> list_all C t \<and> p' = lastp p t) \<and> g' = g"
  by (simp add: ups_mem)

lemma rx_Many1_mem:
  "(p', rest', g') \<in> set (rx ic (Many1 C) (p, rest, g)) \<longleftrightarrow>
     (\<exists>t. t \<noteq> [] \<and> rest = t @ rest' \<and> list_all C t \<and> p' = lastp p t) \<and> g' = g"
  by (simp add: tl_ups_mem)

lemma rx_Few1_mem:
  "(p', rest', g') \<in> set (rx ic (Few1 C) (p, rest, g)) \<longleftrightarrow>
     (\<exists>t. t \<noteq> [] \<and> rest = t @ rest' \<and> list_all C t \<and> p' = lastp p t) \<and> g' = g"
  by (simp add: tl_ups_mem)

lemma rx_alts_mem:
  "(p', rest', g') \<in> set (rx False (alts ws) (p, rest, g)) \<longleftrightarrow>
     (\<exists>w. w \<in> set ws \<and> rest = w @ rest' \<and> p' = lastp p w) \<and> g' = g"
proof (induction ws rule: alts.induct)
  case 1
  show ?case by (auto split: list.splits)
next
  case (2 w)
  show ?case using rx_Lit_mem[of p' rest' g' w p rest g] by auto
next
  case (3 w v ws)
  have "(p', rest', g') \<in> set (rx False (alts (w # v # ws)) (p, rest, g)) \<longleftrightarrow>
          (p', rest', g') \<in> set (rx False (Lit w) (p, rest, g))
          \<or> (p', rest', g') \<in> set (rx False (alts (v # ws)) (p, rest, g))"
    by simp
  then show ?case unfolding 3 rx_Lit_mem by auto
qed

text \<open>A group around a pattern that reads the text \<open>t\<close> records \<open>t\<close>.\<close>

lemma rx_Grp_mem:
  "(p', rest', g') \<in> set (rx ic (Grp n r) (p, rest, g)) \<longleftrightarrow>
     (\<exists>g0. (p', rest', g0) \<in> set (rx ic r (p, rest, g))
            \<and> g' = (n, take (length rest - length rest') rest) # g0)"
proof
  assume "(p', rest', g') \<in> set (rx ic (Grp n r) (p, rest, g))"
  then show "\<exists>g0. (p', rest', g0) \<in> set (rx ic r (p, rest, g))
            \<and> g' = (n, take (length rest - length rest') rest) # g0"
    by auto
next
  assume "\<exists>g0. (p', rest', g0) \<in> set (rx ic r (p, rest, g))
            \<and> g' = (n, take (length rest - length rest') rest) # g0"
  then obtain g0 where m: "(p', rest', g0) \<in> set (rx ic r (p, rest, g))"
    and e: "g' = (n, take (length rest - length rest') rest) # g0"
    by blast
  let ?f = "\<lambda>(p', rest', g'). (p', rest', (n, take (length rest - length rest') rest) # g')"
  have "?f (p', rest', g0) \<in> ?f ` set (rx ic r (p, rest, g))"
    using m by (rule imageI)
  then show "(p', rest', g') \<in> set (rx ic (Grp n r) (p, rest, g))"
    using e by simp
qed

lemma take_diff_append: "take (length (t @ r) - length r) (t @ r) = t"
  by simp

lemma rx_Grp_Few1_mem:
  "(p', rest', g') \<in> set (rx ic (Grp n (Few1 C)) (p, rest, g)) \<longleftrightarrow>
     (\<exists>t. t \<noteq> [] \<and> rest = t @ rest' \<and> list_all C t \<and> p' = lastp p t \<and> g' = (n, t) # g)"
  unfolding rx_Grp_mem rx_Few1_mem by (auto simp: take_diff_append)

lemma rx_Grp_Many1_mem:
  "(p', rest', g') \<in> set (rx ic (Grp n (Many1 C)) (p, rest, g)) \<longleftrightarrow>
     (\<exists>t. t \<noteq> [] \<and> rest = t @ rest' \<and> list_all C t \<and> p' = lastp p t \<and> g' = (n, t) # g)"
  unfolding rx_Grp_mem rx_Many1_mem by (auto simp: take_diff_append)

lemma rx_Grp_alts_mem:
  "(p', rest', g') \<in> set (rx False (Grp n (alts ws)) (p, rest, g)) \<longleftrightarrow>
     (\<exists>w. w \<in> set ws \<and> rest = w @ rest' \<and> p' = lastp p w \<and> g' = (n, w) # g)"
  unfolding rx_Grp_mem rx_alts_mem by (auto simp: take_diff_append)

subsection \<open>Searching\<close>

lemma match_at_False:
  "match_at ic r False p rest = (case rx ic r (p, rest, []) of [] \<Rightarrow> None | st # _ \<Rightarrow> Some st)"
  by (simp add: match_at_def)

lemma match_at_None_iff:
  "match_at ic r False p rest = None \<longleftrightarrow> rx ic r (p, rest, []) = []"
  by (simp add: match_at_False split: list.splits)

lemma search_None_iff:
  "search ic r False p rest = None \<longleftrightarrow>
     (\<forall>pre rest0. rest = pre @ rest0 \<longrightarrow> rx ic r (lastp p pre, rest0, []) = [])"
proof (induction rest arbitrary: p)
  case Nil
  have "search ic r False p [] = None \<longleftrightarrow> match_at ic r False p [] = None"
    by (simp split: option.splits)
  then show ?case by (simp add: match_at_None_iff)
next
  case (Cons c cs)
  have "search ic r False p (c # cs) = None \<longleftrightarrow>
          match_at ic r False p (c # cs) = None \<and> search ic r False (Some c) cs = None"
    by (simp split: option.splits)
  then have "search ic r False p (c # cs) = None \<longleftrightarrow>
          rx ic r (p, c # cs, []) = [] \<and> search ic r False (Some c) cs = None"
    by (simp only: match_at_None_iff)
  also have "\<dots> \<longleftrightarrow> rx ic r (p, c # cs, []) = []
      \<and> (\<forall>pre rest0. cs = pre @ rest0 \<longrightarrow> rx ic r (lastp (Some c) pre, rest0, []) = [])"
    by (simp only: Cons)
  also have "\<dots> \<longleftrightarrow> (\<forall>pre rest0. c # cs = pre @ rest0 \<longrightarrow> rx ic r (lastp p pre, rest0, []) = [])"
  proof
    assume a: "rx ic r (p, c # cs, []) = []
      \<and> (\<forall>pre rest0. cs = pre @ rest0 \<longrightarrow> rx ic r (lastp (Some c) pre, rest0, []) = [])"
    show "\<forall>pre rest0. c # cs = pre @ rest0 \<longrightarrow> rx ic r (lastp p pre, rest0, []) = []"
    proof (intro allI impI)
      fix pre rest0
      assume e: "c # cs = pre @ rest0"
      show "rx ic r (lastp p pre, rest0, []) = []"
      proof (cases pre)
        case Nil
        then show ?thesis using a e by simp
      next
        case (Cons d ds)
        then have "cs = ds @ rest0" "d = c" using e by auto
        then show ?thesis using a Cons by simp
      qed
    qed
  next
    assume a: "\<forall>pre rest0. c # cs = pre @ rest0 \<longrightarrow> rx ic r (lastp p pre, rest0, []) = []"
    have "rx ic r (p, c # cs, []) = []"
      using a[rule_format, of "[]" "c # cs"] by simp
    moreover have "rx ic r (lastp (Some c) pre, rest0, []) = []" if "cs = pre @ rest0" for pre rest0
      using a[rule_format, of "c # pre" rest0] that by simp
    ultimately show "rx ic r (p, c # cs, []) = []
      \<and> (\<forall>pre rest0. cs = pre @ rest0 \<longrightarrow> rx ic r (lastp (Some c) pre, rest0, []) = [])"
      by blast
  qed
  finally show ?case .
qed


subsection \<open>What a pattern without word boundaries matches\<close>

text \<open>
  \<open>den r t g g'\<close>: the pattern \<open>r\<close> matches exactly the text \<open>t\<close>, taking the groups from \<open>g\<close>
  to \<open>g'\<close>. For a pattern without \<^verbatim>\<open>\b\<close> the results of the backtracking matcher are the
  splits of the text into such a \<open>t\<close> and a rest.
\<close>

fun bndfree :: "regex \<Rightarrow> bool" where
  "bndfree Bnd = False"
| "bndfree (Seq a b) = (bndfree a \<and> bndfree b)"
| "bndfree (Alt a b) = (bndfree a \<and> bndfree b)"
| "bndfree (Grp n r) = bndfree r"
| "bndfree r = True"

fun den :: "regex \<Rightarrow> string \<Rightarrow> caps \<Rightarrow> caps \<Rightarrow> bool" where
  "den (Lit l) t g g' = (t = l \<and> g' = g)"
| "den (Cls C) t g g' = (\<exists>c. t = [c] \<and> C c \<and> g' = g)"
| "den Bnd t g g' = False"
| "den (Many C) t g g' = (list_all C t \<and> g' = g)"
| "den (Many1 C) t g g' = (t \<noteq> [] \<and> list_all C t \<and> g' = g)"
| "den (Few1 C) t g g' = (t \<noteq> [] \<and> list_all C t \<and> g' = g)"
| "den (Opt C) t g g' = ((t = [] \<or> (\<exists>c. t = [c] \<and> C c)) \<and> g' = g)"
| "den (Seq a b) t g g' = (\<exists>t1 t2 gm. t = t1 @ t2 \<and> den a t1 g gm \<and> den b t2 gm g')"
| "den (Alt a b) t g g' = (den a t g g' \<or> den b t g g')"
| "den (Grp n r) t g g' = (\<exists>g0. den r t g g0 \<and> g' = (n, t) # g0)"
| "den (Ref n) t g g' = (map_of g n = Some t \<and> g' = g)"

lemma rx_Cls_mem:
  "(p', rest', g') \<in> set (rx ic (Cls C) (p, rest, g)) \<longleftrightarrow>
     (\<exists>c. rest = [c] @ rest' \<and> C c \<and> p' = lastp p [c]) \<and> g' = g"
  by (cases rest) auto

lemma rx_Opt_mem:
  "(p', rest', g') \<in> set (rx ic (Opt C) (p, rest, g)) \<longleftrightarrow>
     (\<exists>t. (t = [] \<or> (\<exists>c. t = [c] \<and> C c)) \<and> rest = t @ rest' \<and> p' = lastp p t) \<and> g' = g"
proof (cases rest)
  case Nil
  then show ?thesis by auto
next
  case (Cons c cs)
  show ?thesis
  proof (cases "C c")
    case False
    then show ?thesis using Cons by (auto simp: Cons_eq_append_conv)
  next
    case True
    have "take 2 (ups C p (c # cs) g) = [(p, c # cs, g), (Some c, cs, g)]"
      using True by (cases cs) (simp_all add: numeral_2_eq_2)
    then show ?thesis using Cons True by (auto simp: Cons_eq_append_conv)
  qed
qed

theorem rx_den:
  "bndfree r \<Longrightarrow>
     (p', rest', g') \<in> set (rx False r (p, rest, g)) \<longleftrightarrow>
       (\<exists>t. rest = t @ rest' \<and> p' = lastp p t \<and> den r t g g')"
proof (induction r arbitrary: p rest g p' rest' g')
  case (Lit l)
  show ?case unfolding rx_Lit_mem by auto
next
  case (Cls C)
  show ?case unfolding rx_Cls_mem by auto
next
  case Bnd
  then show ?case by simp
next
  case (Many C)
  show ?case unfolding rx_Many_mem by auto
next
  case (Many1 C)
  show ?case unfolding rx_Many1_mem by auto
next
  case (Few1 C)
  show ?case unfolding rx_Few1_mem by auto
next
  case (Opt C)
  show ?case unfolding rx_Opt_mem by auto
next
  case (Seq a b)
  then have fa: "bndfree a" and fb: "bndfree b" by simp_all
  show ?case
  proof
    assume "(p', rest', g') \<in> set (rx False (Seq a b) (p, rest, g))"
    then obtain pm rm gm where m1: "(pm, rm, gm) \<in> set (rx False a (p, rest, g))"
      and m2: "(p', rest', g') \<in> set (rx False b (pm, rm, gm))"
      unfolding rx_Seq_mem by auto
    from m1 obtain t1 where t1: "rest = t1 @ rm" "pm = lastp p t1" "den a t1 g gm"
      using Seq.IH(1)[OF fa] by blast
    from m2 obtain t2 where t2: "rm = t2 @ rest'" "p' = lastp pm t2" "den b t2 gm g'"
      using Seq.IH(2)[OF fb] by blast
    have "rest = (t1 @ t2) @ rest' \<and> p' = lastp p (t1 @ t2) \<and> den (Seq a b) (t1 @ t2) g g'"
      using t1 t2 by auto
    then show "\<exists>t. rest = t @ rest' \<and> p' = lastp p t \<and> den (Seq a b) t g g'"
      by blast
  next
    assume "\<exists>t. rest = t @ rest' \<and> p' = lastp p t \<and> den (Seq a b) t g g'"
    then obtain t1 t2 gm where e: "rest = (t1 @ t2) @ rest'" "p' = lastp p (t1 @ t2)"
      and d1: "den a t1 g gm" and d2: "den b t2 gm g'"
      by auto
    have m1: "(lastp p t1, t2 @ rest', gm) \<in> set (rx False a (p, rest, g))"
      using Seq.IH(1)[OF fa, of "lastp p t1" "t2 @ rest'" gm p rest g] e d1 by auto
    have m2: "(p', rest', g') \<in> set (rx False b (lastp p t1, t2 @ rest', gm))"
      using Seq.IH(2)[OF fb, of p' rest' g' "lastp p t1" "t2 @ rest'" gm] e d2 by auto
    from m1 m2 show "(p', rest', g') \<in> set (rx False (Seq a b) (p, rest, g))"
      unfolding rx_Seq_mem by blast
  qed
next
  case (Alt a b)
  then have fa: "bndfree a" and fb: "bndfree b" by simp_all
  show ?case
    unfolding rx_Alt_mem Alt.IH(1)[OF fa] Alt.IH(2)[OF fb] by auto
next
  case (Grp n r)
  then have fr: "bndfree r" by simp
  show ?case
    unfolding rx_Grp_mem Grp.IH[OF fr] by (auto simp: take_diff_append)
next
  case (Ref n)
  show ?case unfolding rx_Ref_mem by auto
qed




lemma den_Seq_Many:
  "den (Seq (Many C) r) t g g' \<longleftrightarrow> (\<exists>v t2. list_all C v \<and> t = v @ t2 \<and> den r t2 g g')"
  by auto


lemma den_Seq_Grp_Many1:
  "den (Seq (Grp n (Many1 C)) r) t g g' \<longleftrightarrow>
     (\<exists>v t2. v \<noteq> [] \<and> list_all C v \<and> t = v @ t2 \<and> den r t2 ((n, v) # g) g')"
  by auto

lemma den_alts: "den (alts ws) t g g' \<longleftrightarrow> t \<in> set ws \<and> g' = g"
  by (induction ws rule: alts.induct) auto

lemma den_Seq_Grp_alts:
  "den (Seq (Grp n (alts ws)) r) t g g' \<longleftrightarrow>
     (\<exists>w t2. w \<in> set ws \<and> t = w @ t2 \<and> den r t2 ((n, w) # g) g')"
  by (auto simp: den_alts)







subsection \<open>The matches that the scanning loop records\<close>

lemma search_match:
  "search ic r adv p rest = Some (gap, tx, (p', rest', g)) \<Longrightarrow>
     \<exists>p0 adv0. rest = gap @ tx @ rest' \<and> match_at ic r adv0 p0 (tx @ rest') = Some (p', rest', g)"
proof (induction ic r adv p rest arbitrary: gap rule: search.induct)
  case (1 ic r adv p)
  then have m: "match_at ic r adv p [] = Some (p', rest', g)" and e: "gap = []" "tx = []"
    by (auto split: option.splits)
  from search_shape[OF 1] e have "rest' = []" by simp
  with m e show ?case by auto
next
  case (2 ic r adv p c cs)
  from search_shape[OF 2(2)] have sh: "c # cs = gap @ tx @ rest'" by simp
  show ?case
  proof (cases "match_at ic r adv p (c # cs)")
    case None
    with 2(2) obtain gap2 where s: "search ic r False (Some c) cs = Some (gap2, tx, (p', rest', g))"
      and "gap = c # gap2" by (auto split: option.splits)
    from 2(1)[OF None s] sh show ?thesis by auto
  next
    case (Some st)
    with 2(2) have st: "st = (p', rest', g)" and gap: "gap = []"
      by (auto split: prod.splits)
    from sh gap have "c # cs = tx @ rest'" by simp
    with Some st gap sh show ?thesis by metis
  qed
qed

lemma scan_match:
  "(gap, tx, g) \<in> set (fst (scan ic r adv p rest)) \<Longrightarrow>
     \<exists>pre p0 adv0 p' rest'. rest = pre @ tx @ rest'
        \<and> match_at ic r adv0 p0 (tx @ rest') = Some (p', rest', g)"
proof (induction ic r adv p rest rule: scan.induct)
  case (1 ic r adv p rest)
  show ?case
  proof (cases "search ic r adv p rest")
    case None
    with 1(2) show ?thesis by (simp add: scan.simps[of ic r adv p rest])
  next
    case (Some a)
    obtain gap1 tx1 p1 rest1 g1 where a: "a = (gap1, tx1, (p1, rest1, g1))"
      by (metis prod_cases3)
    from search_match[OF Some[unfolded a]] obtain p0 adv0 where
      r: "rest = gap1 @ tx1 @ rest1" and m: "match_at ic r adv0 p0 (tx1 @ rest1) = Some (p1, rest1, g1)"
      by blast
    from 1(2) Some a have "(gap, tx, g) = (gap1, tx1, g1)
        \<or> (gap, tx, g) \<in> set (fst (scan ic r (tx1 = []) p1 rest1))"
      by (auto simp: scan.simps[of ic r adv p rest] split: prod.splits)
    then show ?thesis
    proof
      assume "(gap, tx, g) = (gap1, tx1, g1)"
      with r m show ?thesis by blast
    next
      assume "(gap, tx, g) \<in> set (fst (scan ic r (tx1 = []) p1 rest1))"
      from 1(1)[OF Some[unfolded a] refl refl refl refl this]
      obtain pre q0 b0 p' rest' where "rest1 = pre @ tx @ rest'"
        and "match_at ic r b0 q0 (tx @ rest') = Some (p', rest', g)" by blast
      with r have "rest = (gap1 @ tx1 @ pre) @ tx @ rest'
        \<and> match_at ic r b0 q0 (tx @ rest') = Some (p', rest', g)" by simp
      then show ?thesis by blast
    qed
  qed
qed

lemma re_finditer_match:
  "(tx, g) \<in> set (re_finditer ic r s) \<Longrightarrow>
     \<exists>pre p0 adv0 p' rest'. s = pre @ tx @ rest'
        \<and> match_at ic r adv0 p0 (tx @ rest') = Some (p', rest', g)"
proof -
  assume "(tx, g) \<in> set (re_finditer ic r s)"
  then obtain gap where "(gap, tx, g) \<in> set (fst (scan ic r False None s))"
    unfolding re_finditer_def by auto
  then show ?thesis by (rule scan_match)
qed

lemma hd_concat_map:
  "concat (map f xs) = y # ys \<Longrightarrow> \<exists>x zs. x \<in> set xs \<and> f x = y # zs"
proof (induction xs)
  case Nil
  then show ?case by simp
next
  case (Cons x xs)
  show ?case
  proof (cases "f x")
    case Nil
    with Cons show ?thesis by auto
  next
    case (Cons z zs)
    with Cons.prems have "z = y" by simp
    with Cons show ?thesis by auto
  qed
qed

lemma concat_map_single:
  "(\<And>x. x \<in> set xs \<Longrightarrow> f x = [h x]) \<Longrightarrow> concat (map f xs) = map h xs"
  by (induction xs) auto

lemma hd_Seq:
  "rx ic (Seq a b) st = y # ys \<Longrightarrow> \<exists>m zs. m \<in> set (rx ic a st) \<and> rx ic b m = y # zs"
  using hd_concat_map[of "rx ic b" "rx ic a st" y ys] by simp

lemma rx_Grp_Opt_mem:
  "(p', rest', g') \<in> set (rx ic (Grp n (Opt C)) (p, rest, g)) \<longleftrightarrow>
     (\<exists>t. (t = [] \<or> (\<exists>c. t = [c] \<and> C c)) \<and> rest = t @ rest' \<and> p' = lastp p t \<and> g' = (n, t) # g)"
  unfolding rx_Grp_mem rx_Opt_mem by (auto simp: take_diff_append)

text \<open>
  A greedy run in a group, followed by a backreference to a group that holds the
  empty text: the first result is the longest run.
\<close>

lemma hd_run_then_empty_ref:
  assumes h: "rx False (Seq (Grp n (Many1 C)) (Ref k)) (p, rest, g) = y # ys"
    and e: "map_of g k = Some []" and nk: "n \<noteq> k"
  shows "\<exists>p'. y = (p', dropWhile C rest, (n, takeWhile C rest) # g) \<and> takeWhile C rest \<noteq> []"
proof -
  let ?G = "\<lambda>(p', rest', g'). (p', rest', (n, take (length rest - length rest') rest) # g')"
  let ?f = "\<lambda>j. (lastp p (take j rest), drop j rest, g)"
  let ?N = "length (takeWhile C rest)"
  have one: "rx False (Ref k) (?G m) = [?G m]" if "m \<in> set (rev (tl (ups C p rest g)))" for m
  proof -
    obtain a b c where m: "m = (a, b, c)" by (metis prod_cases3)
    from that have "m \<in> set (ups C p rest g)" by (simp add: in_tl)
    then have "c = g" unfolding m ups_mem by simp
    then show ?thesis using e nk m by simp
  qed
  have "rx False (Seq (Grp n (Many1 C)) (Ref k)) (p, rest, g)
          = concat (map (\<lambda>m. rx False (Ref k) (?G m)) (rev (tl (ups C p rest g))))"
    by (simp add: comp_def del: rx.simps(11))
  also have "\<dots> = map ?G (rev (tl (ups C p rest g)))"
    using one by (rule concat_map_single)
  also have "tl (ups C p rest g) = map ?f [Suc 0..<Suc ?N]"
    unfolding ups_closed by (simp add: map_tl[symmetric] del: upt_Suc)
  finally have eq: "map ?G (rev (map ?f [Suc 0..<Suc ?N])) = y # ys"
    using h by simp
  have pos: "?N \<noteq> 0"
  proof
    assume "?N = 0"
    with eq show False by simp
  qed
  then have "Suc 0 \<le> ?N"
    by (simp add: Suc_le_eq)
  then have "[Suc 0..<Suc ?N] = [Suc 0..<?N] @ [?N]"
    by simp
  with eq have "y = ?G (?f ?N)"
    by simp
  moreover have "take ?N rest = takeWhile C rest" "drop ?N rest = dropWhile C rest"
    using takeWhile_eq_take[of C rest] dropWhile_eq_drop[of C rest] by simp_all
  moreover have "length rest - length (dropWhile C rest) = ?N"
    by (metis add_diff_cancel_right' length_append takeWhile_dropWhile_id)
  ultimately have "y = (lastp p (takeWhile C rest), dropWhile C rest, (n, takeWhile C rest) # g)"
    by simp
  with pos show ?thesis by auto
qed

subsection \<open>The match that the backtracking finds first\<close>

text \<open>
  A greedy quantifier tries the longest run first, so when the rest of the pattern
  matches after the longest run, that is the match Python returns.
\<close>

lemma ups_ne: "ups C p rest g \<noteq> []"
  by (cases rest) simp_all

lemma last_ups:
  "last (ups C p rest g) = (lastp p (takeWhile C rest), dropWhile C rest, g)"
  by (induction rest arbitrary: p) (simp_all add: ups_ne)

lemma rev_last: "xs \<noteq> [] \<Longrightarrow> rev xs = last xs # rev (butlast xs)"
  by (cases xs rule: rev_cases) simp_all

lemma takeWhile_exact:
  "list_all C a \<Longrightarrow> b = [] \<or> \<not> C (hd b) \<Longrightarrow> takeWhile C (a @ b) = a \<and> dropWhile C (a @ b) = b"
  by (induction a) (cases b; auto)+

lemma rx_Seq_hd:
  "rx ic a st = m # ms \<Longrightarrow> rx ic b m = y # ys \<Longrightarrow> \<exists>zs. rx ic (Seq a b) st = y # zs"
  by simp

lemma rx_Many_hd:
  assumes "list_all C a" "b = [] \<or> \<not> C (hd b)"
  shows "\<exists>ys. rx ic (Many C) (p, a @ b, g) = (lastp p a, b, g) # ys"
proof -
  have l: "last (ups C p (a @ b) g) = (lastp p a, b, g)"
    unfolding last_ups using takeWhile_exact[OF assms] by simp
  have "rx ic (Many C) (p, a @ b, g) = last (ups C p (a @ b) g) # rev (butlast (ups C p (a @ b) g))"
    using rev_last[OF ups_ne] by simp
  then have "rx ic (Many C) (p, a @ b, g) = (lastp p a, b, g) # rev (butlast (ups C p (a @ b) g))"
    by (simp only: l)
  then show ?thesis
    by (rule exI)
qed

lemma rx_Many1_hd:
  assumes "list_all C a" "b = [] \<or> \<not> C (hd b)" "a \<noteq> []"
  shows "\<exists>ys. rx ic (Many1 C) (p, a @ b, g) = (lastp p a, b, g) # ys"
proof -
  obtain c cs where a: "a = c # cs"
    using assms(3) by (cases a) auto
  have ne: "tl (ups C p (a @ b) g) \<noteq> []"
    using assms(1) unfolding a by (simp add: ups_ne)
  then have "last (tl (ups C p (a @ b) g)) = last (ups C p (a @ b) g)"
    by (simp add: last_tl)
  with rev_last[OF ne]
  have "rx ic (Many1 C) (p, a @ b, g)
          = last (ups C p (a @ b) g) # rev (butlast (tl (ups C p (a @ b) g)))"
    by simp
  moreover have "last (ups C p (a @ b) g) = (lastp p a, b, g)"
    unfolding last_ups using takeWhile_exact[OF assms(1,2)] by simp
  ultimately have "rx ic (Many1 C) (p, a @ b, g)
          = (lastp p a, b, g) # rev (butlast (tl (ups C p (a @ b) g)))"
    by (simp only:)
  then show ?thesis
    by (rule exI)
qed

lemma rx_Grp_hd:
  "rx ic r (p, t @ rest', g) = (p', rest', g') # ys \<Longrightarrow>
     \<exists>zs. rx ic (Grp n r) (p, t @ rest', g) = (p', rest', (n, t) # g') # zs"
  by simp

lemma rx_Grp_Many1_hd:
  assumes "list_all C a" "b = [] \<or> \<not> C (hd b)" "a \<noteq> []"
  shows "\<exists>ys. rx ic (Grp n (Many1 C)) (p, a @ b, g) = (lastp p a, b, (n, a) # g) # ys"
proof -
  from rx_Many1_hd[OF assms] obtain ys where
    "rx ic (Many1 C) (p, a @ b, g) = (lastp p a, b, g) # ys"
    by blast
  then show ?thesis
    by (rule rx_Grp_hd)
qed

lemma rx_Grp_Opt_hd:
  assumes "(q = [] \<and> (b = [] \<or> \<not> Q (hd b))) \<or> (\<exists>c. q = [c] \<and> Q c)"
  shows "\<exists>ys. rx ic (Grp n (Opt Q)) (p, q @ b, g) = (lastp p q, b, (n, q) # g) # ys"
proof -
  have "\<exists>ys. rx ic (Opt Q) (p, q @ b, g) = (lastp p q, b, g) # ys"
    using assms by (cases b; cases "tl b") (auto simp: ups_ne)
  then obtain ys where "rx ic (Opt Q) (p, q @ b, g) = (lastp p q, b, g) # ys"
    by blast
  then show ?thesis
    by (rule rx_Grp_hd)
qed

lemma rx_Ref_hd:
  "map_of g n = Some q \<Longrightarrow> rx False (Ref n) (p, q @ b, g) = [(lastp p q, b, g)]"
  using eat_iff[of q p "q @ b" "lastp p q" b] by simp

lemma rx_ops:
  "op \<in> set [''=='', ''!='', ''>'', ''<''] \<Longrightarrow>
     rx False (alts [''=='', ''!='', ''>'', ''<'']) (p, op @ rest, g) = [(lastp p op, rest, g)]"
  by (auto simp: same_char_def)

text \<open>
  The pattern of a comparison on a text that is a comparison: the first result reads
  the whole word, the operator, and the value up to the closing quote or to the end of
  the run of value characters.
\<close>

lemma comparison_fwd:
  assumes tok: "tok \<noteq> []" "list_all W tok" "\<not> W (hd (ws1 @ op))"
    and ws1: "list_all S ws1" "\<not> S (hd op)" "op \<noteq> []"
    and op: "\<And>p rest g. rx False (alts ops) (p, op @ rest, g) = [(lastp p op, rest, g)]"
    and ws2: "list_all S ws2" "\<not> S (hd (q @ val))"
    and q: "(q = [] \<and> \<not> Q (hd val)) \<or> (\<exists>c. q = [c] \<and> Q c)"
    and val: "val \<noteq> []" "list_all V val" "q @ post = [] \<or> \<not> V (hd (q @ post))"
  shows "\<exists>ys. rx False (Seq (Grp 1 (Many1 W)) (Seq (Many S) (Seq (Grp 2 (alts ops))
             (Seq (Many S) (Seq (Grp 3 (Opt Q)) (Seq (Grp 4 (Many1 V)) (Ref 3)))))))
           (p, tok @ ws1 @ op @ ws2 @ q @ val @ q @ post, [])
          = (lastp p (tok @ ws1 @ op @ ws2 @ q @ val @ q), post,
             [(4, val), (3, q), (2, op), (1, tok)]) # ys"
proof -
  let ?g1 = "[(1::nat, tok)]"
  let ?g3 = "(2::nat, op) # ?g1"
  let ?g5 = "(3::nat, q) # ?g3"
  let ?g6 = "(4::nat, val) # ?g5"
  let ?p1 = "lastp p tok"
  let ?p2 = "lastp ?p1 ws1"
  let ?p3 = "lastp ?p2 op"
  let ?p4 = "lastp ?p3 ws2"
  let ?p5 = "lastp ?p4 q"
  let ?p6 = "lastp ?p5 val"
  let ?p7 = "lastp ?p6 q"
  have e7: "rx False (Ref 3) (?p6, q @ post, ?g6) = [(?p7, post, ?g6)]"
    by (rule rx_Ref_hd) simp
  from rx_Grp_Many1_hd[OF val(2,3,1), of False 4 ?p5 ?g5] obtain y6 where
    e6: "rx False (Grp 4 (Many1 V)) (?p5, val @ q @ post, ?g5) = (?p6, q @ post, ?g6) # y6"
    by blast
  from rx_Seq_hd[OF e6 e7] obtain z6 where
    f6: "rx False (Seq (Grp 4 (Many1 V)) (Ref 3)) (?p5, val @ q @ post, ?g5) = (?p7, post, ?g6) # z6"
    by blast
  have "(q = [] \<and> (val @ q @ post = [] \<or> \<not> Q (hd (val @ q @ post)))) \<or> (\<exists>c. q = [c] \<and> Q c)"
    using q val(1) by auto
  from rx_Grp_Opt_hd[OF this, of False 3 ?p4 ?g3] obtain y5 where
    e5: "rx False (Grp 3 (Opt Q)) (?p4, q @ val @ q @ post, ?g3) = (?p5, val @ q @ post, ?g5) # y5"
    by blast
  from rx_Seq_hd[OF e5 f6] obtain z5 where
    f5: "rx False (Seq (Grp 3 (Opt Q)) (Seq (Grp 4 (Many1 V)) (Ref 3))) (?p4, q @ val @ q @ post, ?g3)
           = (?p7, post, ?g6) # z5"
    by blast
  have "q @ val @ q @ post = [] \<or> \<not> S (hd (q @ val @ q @ post))"
    using ws2(2) val(1) by (cases q) auto
  from rx_Many_hd[OF ws2(1) this, of False ?p3 ?g3] obtain y4 where
    e4: "rx False (Many S) (?p3, ws2 @ q @ val @ q @ post, ?g3) = (?p4, q @ val @ q @ post, ?g3) # y4"
    by blast
  from rx_Seq_hd[OF e4 f5] obtain z4 where
    f4: "rx False (Seq (Many S) (Seq (Grp 3 (Opt Q)) (Seq (Grp 4 (Many1 V)) (Ref 3))))
           (?p3, ws2 @ q @ val @ q @ post, ?g3) = (?p7, post, ?g6) # z4"
    by blast
  have e3: "rx False (Grp 2 (alts ops)) (?p2, op @ ws2 @ q @ val @ q @ post, ?g1)
              = (?p3, ws2 @ q @ val @ q @ post, ?g3) # []"
    by (simp add: op del: lastp_append)
  from rx_Seq_hd[OF e3 f4] obtain z3 where
    f3: "rx False (Seq (Grp 2 (alts ops)) (Seq (Many S) (Seq (Grp 3 (Opt Q)) (Seq (Grp 4 (Many1 V)) (Ref 3)))))
           (?p2, op @ ws2 @ q @ val @ q @ post, ?g1) = (?p7, post, ?g6) # z3"
    by blast
  have "op @ ws2 @ q @ val @ q @ post = [] \<or> \<not> S (hd (op @ ws2 @ q @ val @ q @ post))"
    using ws1(2,3) by simp
  from rx_Many_hd[OF ws1(1) this, of False ?p1 ?g1] obtain y2 where
    e2: "rx False (Many S) (?p1, ws1 @ op @ ws2 @ q @ val @ q @ post, ?g1)
           = (?p2, op @ ws2 @ q @ val @ q @ post, ?g1) # y2"
    by blast
  from rx_Seq_hd[OF e2 f3] obtain z2 where
    f2: "rx False (Seq (Many S) (Seq (Grp 2 (alts ops)) (Seq (Many S) (Seq (Grp 3 (Opt Q))
             (Seq (Grp 4 (Many1 V)) (Ref 3))))))
           (?p1, ws1 @ op @ ws2 @ q @ val @ q @ post, ?g1) = (?p7, post, ?g6) # z2"
    by blast
  have "hd (ws1 @ op @ ws2 @ q @ val @ q @ post) = hd (ws1 @ op)"
    using ws1(3) by (cases ws1) auto
  then have "ws1 @ op @ ws2 @ q @ val @ q @ post = [] \<or> \<not> W (hd (ws1 @ op @ ws2 @ q @ val @ q @ post))"
    using tok(3) by simp
  from rx_Grp_Many1_hd[OF tok(2) this tok(1), of False 1 p "[]"] obtain y1 where
    e1: "rx False (Grp 1 (Many1 W)) (p, tok @ ws1 @ op @ ws2 @ q @ val @ q @ post, [])
           = (?p1, ws1 @ op @ ws2 @ q @ val @ q @ post, ?g1) # y1"
    by blast
  from rx_Seq_hd[OF e1 f2] obtain z1 where
    f1: "rx False (Seq (Grp 1 (Many1 W)) (Seq (Many S) (Seq (Grp 2 (alts ops)) (Seq (Many S)
             (Seq (Grp 3 (Opt Q)) (Seq (Grp 4 (Many1 V)) (Ref 3)))))))
           (p, tok @ ws1 @ op @ ws2 @ q @ val @ q @ post, []) = (?p7, post, ?g6) # z1"
    by blast
  have "?p7 = lastp p (tok @ ws1 @ op @ ws2 @ q @ val @ q)"
    by simp
  with f1 show ?thesis
    by (simp only:) (rule exI, rule refl)
qed

text \<open>A text with exactly one match: the scanning loop records that match and no other.\<close>

lemma search_skip_hit:
  assumes pre: "\<And>a b. pre = a @ b \<Longrightarrow> b \<noteq> [] \<Longrightarrow> rx ic r (lastp p a, b @ tx @ post, []) = []"
    and hit: "rx ic r (lastp p pre, tx @ post, []) = (p', post, g) # ys"
    and tx: "tx \<noteq> []"
  shows "search ic r adv p (pre @ tx @ post) = Some (pre, tx, (p', post, g))"
  using pre hit
proof (induction pre arbitrary: p adv)
  case Nil
  obtain c cs where t: "tx = c # cs"
    using tx by (cases tx) auto
  have "match_at ic r adv p (tx @ post) = Some (p', post, g)"
    using Nil(2) tx by (simp add: match_at_def)
  then show ?case
    unfolding t by simp
next
  case (Cons d ds)
  have "rx ic r (lastp p [], (d # ds) @ tx @ post, []) = []"
    by (rule Cons(2)) simp_all
  then have n: "match_at ic r adv p (d # ds @ tx @ post) = None"
    by (simp add: match_at_def)
  have "search ic r False (Some d) (ds @ tx @ post) = Some (ds, tx, (p', post, g))"
  proof (rule Cons(1))
    fix a b
    assume "ds = a @ b" "b \<noteq> []"
    then show "rx ic r (lastp (Some d) a, b @ tx @ post, []) = []"
      using Cons(2)[of "d # a" b] by simp
  next
    show "rx ic r (lastp (Some d) ds, tx @ post, []) = (p', post, g) # ys"
      using Cons(3) by simp
  qed
  with n show ?case
    by simp
qed

lemma finditer_one:
  assumes pre: "\<And>a b. pre = a @ b \<Longrightarrow> b \<noteq> [] \<Longrightarrow> rx ic r (lastp None a, b @ tx @ post, []) = []"
    and hit: "rx ic r (lastp None pre, tx @ post, []) = (p', post, g) # ys"
    and tx: "tx \<noteq> []"
    and post: "\<And>a b. post = a @ b \<Longrightarrow> rx ic r (lastp p' a, b, []) = []"
  shows "re_finditer ic r (pre @ tx @ post) = [(tx, g)]"
proof -
  have s: "search ic r False None (pre @ tx @ post) = Some (pre, tx, (p', post, g))"
    using pre hit tx by (rule search_skip_hit)
  have n: "search ic r False p' post = None"
    unfolding search_None_iff using post by blast
  have "scan ic r False p' post = ([], post)"
    by (simp add: scan.simps[of ic r False p' post] n)
  then have "scan ic r False None (pre @ tx @ post) = ([(pre, tx, g)], post)"
    using tx by (simp add: scan.simps[of ic r False None "pre @ tx @ post"] s)
  then show ?thesis
    by (simp add: re_finditer_def)
qed

subsection \<open>The pattern of a comparison\<close>

lemma den_Seq_Grp_Opt:
  "den (Seq (Grp n (Opt C)) r) t g g' \<longleftrightarrow>
     (\<exists>q t2. (q = [] \<or> (\<exists>c. q = [c] \<and> C c)) \<and> t = q @ t2 \<and> den r t2 ((n, q) # g) g')"
  by auto

lemma den_comparison_shape:
  "den (Seq (Grp 1 (Many1 W)) (Seq (Many S) (Seq (Grp 2 (alts ops)) (Seq (Many S)
       (Seq (Grp 3 (Opt Q)) (Seq (Grp 4 (Many1 V)) (Ref 3))))))) t [] g' \<Longrightarrow>
     (\<exists>var ws1 op ws2 q val.
        t = var @ ws1 @ op @ ws2 @ q @ val @ q
        \<and> var \<noteq> [] \<and> list_all W var \<and> list_all S ws1 \<and> op \<in> set ops \<and> list_all S ws2
        \<and> (q = [] \<or> (\<exists>c. q = [c] \<and> Q c)) \<and> val \<noteq> [] \<and> list_all V val
        \<and> g' = [(4, val), (3, q), (2, op), (1, var)])"
  apply (simp only: den_Seq_Many den_Seq_Grp_Many1 den_Seq_Grp_alts den_Seq_Grp_Opt den.simps(11))
  apply (elim exE conjE)
  apply (simp only: map_of.simps fst_conv snd_conv)
  apply (simp del: same_append_eq append_assoc)
  apply blast
  done

lemma bndfree_alts: "bndfree (alts ws)"
  by (induction ws rule: alts.induct) simp_all

lemma match_at_hd:
  assumes all: "\<And>p' r' g'. (p', r', g') \<in> set (rx ic r (p, rest, [])) \<Longrightarrow> length r' < length rest"
    and m: "match_at ic r adv p rest = Some st"
  shows "\<exists>ys. rx ic r (p, rest, []) = st # ys"
proof -
  have "filter (\<lambda>(p', rest', g). \<not> adv \<or> length rest' < length rest) (rx ic r (p, rest, []))
          = rx ic r (p, rest, [])"
    using all by (intro filter_True) auto
  with m show ?thesis
    by (cases "rx ic r (p, rest, [])") (simp_all add: match_at_def)
qed

lemma comparison_mem:
  assumes "(p', rest', g') \<in> set (rx False (Seq (Grp 1 (Many1 W)) (Seq (Many S) (Seq (Grp 2 (alts ops))
             (Seq (Many S) (Seq (Grp 3 (Opt Q)) (Seq (Grp 4 (Many1 V)) (Ref 3))))))) (p, rest, []))"
  shows "\<exists>var ws1 op ws2 q val.
        rest = var @ ws1 @ op @ ws2 @ q @ val @ q @ rest'
        \<and> var \<noteq> [] \<and> list_all W var \<and> list_all S ws1 \<and> op \<in> set ops \<and> list_all S ws2
        \<and> (q = [] \<or> (\<exists>c. q = [c] \<and> Q c)) \<and> val \<noteq> [] \<and> list_all V val
        \<and> g' = [(4, val), (3, q), (2, op), (1, var)]"
proof -
  let ?P = "Seq (Grp 1 (Many1 W)) (Seq (Many S) (Seq (Grp 2 (alts ops))
             (Seq (Many S) (Seq (Grp 3 (Opt Q)) (Seq (Grp 4 (Many1 V)) (Ref 3))))))"
  have "bndfree ?P" by (simp add: bndfree_alts)
  from assms[unfolded rx_den[OF this]] obtain t where t: "rest = t @ rest'" and d: "den ?P t [] g'"
    by blast
  from den_comparison_shape[OF d] obtain var ws1 op ws2 q val where
    "t = var @ ws1 @ op @ ws2 @ q @ val @ q"
    and c: "var \<noteq> []" "list_all W var" "list_all S ws1" "op \<in> set ops" "list_all S ws2"
      "q = [] \<or> (\<exists>c. q = [c] \<and> Q c)" "val \<noteq> []" "list_all V val"
      "g' = [(4, val), (3, q), (2, op), (1, var)]"
    by blast
  with t have "rest = var @ ws1 @ op @ ws2 @ q @ val @ q @ rest'" by simp
  with c show ?thesis by blast
qed

lemma comparison_hd:
  assumes h: "rx False (Seq (Grp 1 (Many1 W)) (Seq (Many S) (Seq (Grp 2 (alts ops))
             (Seq (Many S) (Seq (Grp 3 (Opt Q)) (Seq (Grp 4 (Many1 V)) (Ref 3))))))) (p, rest, [])
             = (p', rest', g') # ys"
    and e: "map_of g' 3 = Some []"
  shows "\<exists>var ws1 op ws2 rest5.
        rest = var @ ws1 @ op @ ws2 @ rest5
        \<and> var \<noteq> [] \<and> list_all W var \<and> list_all S ws1 \<and> op \<in> set ops \<and> list_all S ws2
        \<and> takeWhile V rest5 \<noteq> [] \<and> rest' = dropWhile V rest5
        \<and> g' = [(4, takeWhile V rest5), (3, []), (2, op), (1, var)]"
proof -
  from hd_Seq[OF h] obtain p1 r1 g1 z1 where
    m1: "(p1, r1, g1) \<in> set (rx False (Grp 1 (Many1 W)) (p, rest, []))"
    and h1: "rx False (Seq (Many S) (Seq (Grp 2 (alts ops))
             (Seq (Many S) (Seq (Grp 3 (Opt Q)) (Seq (Grp 4 (Many1 V)) (Ref 3)))))) (p1, r1, g1)
             = (p', rest', g') # z1"
    by (metis prod_cases3)
  from m1 obtain var where v: "var \<noteq> []" "rest = var @ r1" "list_all W var" "g1 = [(1, var)]"
    unfolding rx_Grp_Many1_mem by blast
  from hd_Seq[OF h1] obtain p2 r2 g2 z2 where
    m2: "(p2, r2, g2) \<in> set (rx False (Many S) (p1, r1, g1))"
    and h2: "rx False (Seq (Grp 2 (alts ops))
             (Seq (Many S) (Seq (Grp 3 (Opt Q)) (Seq (Grp 4 (Many1 V)) (Ref 3))))) (p2, r2, g2)
             = (p', rest', g') # z2"
    by (metis prod_cases3)
  from m2 obtain ws1 where w1: "r1 = ws1 @ r2" "list_all S ws1" "g2 = g1"
    unfolding rx_Many_mem by blast
  from hd_Seq[OF h2] obtain p3 r3 g3 z3 where
    m3: "(p3, r3, g3) \<in> set (rx False (Grp 2 (alts ops)) (p2, r2, g2))"
    and h3: "rx False (Seq (Many S) (Seq (Grp 3 (Opt Q)) (Seq (Grp 4 (Many1 V)) (Ref 3)))) (p3, r3, g3)
             = (p', rest', g') # z3"
    by (metis prod_cases3)
  from m3 obtain op where o: "op \<in> set ops" "r2 = op @ r3" "g3 = (2, op) # g2"
    unfolding rx_Grp_alts_mem by blast
  from hd_Seq[OF h3] obtain p4 r4 g4 z4 where
    m4: "(p4, r4, g4) \<in> set (rx False (Many S) (p3, r3, g3))"
    and h4: "rx False (Seq (Grp 3 (Opt Q)) (Seq (Grp 4 (Many1 V)) (Ref 3))) (p4, r4, g4)
             = (p', rest', g') # z4"
    by (metis prod_cases3)
  from m4 obtain ws2 where w2: "r3 = ws2 @ r4" "list_all S ws2" "g4 = g3"
    unfolding rx_Many_mem by blast
  from hd_Seq[OF h4] obtain p5 r5 g5 z5 where
    m5: "(p5, r5, g5) \<in> set (rx False (Grp 3 (Opt Q)) (p4, r4, g4))"
    and h5: "rx False (Seq (Grp 4 (Many1 V)) (Ref 3)) (p5, r5, g5) = (p', rest', g') # z5"
    by (metis prod_cases3)
  from m5 obtain q where q: "r4 = q @ r5" "g5 = (3, q) # g4"
    unfolding rx_Grp_Opt_mem by blast
  have "(p', rest', g') \<in> set (rx False (Seq (Grp 4 (Many1 V)) (Ref 3)) (p5, r5, g5))"
    unfolding h5 by simp
  then obtain pm rm gm where ma: "(pm, rm, gm) \<in> set (rx False (Grp 4 (Many1 V)) (p5, r5, g5))"
    and mb: "(p', rest', g') \<in> set (rx False (Ref 3) (pm, rm, gm))"
    unfolding rx_Seq_mem by (metis prod_cases3)
  from ma obtain val where "gm = (4, val) # g5"
    unfolding rx_Grp_Many1_mem by blast
  moreover from mb have "g' = gm"
    unfolding rx_Ref_mem by blast
  ultimately have "g' = (4, val) # g5"
    by simp
  with e q have "q = []" by simp
  with q have e5: "map_of g5 3 = Some []" and r45: "r4 = r5" by simp_all
  from hd_run_then_empty_ref[OF h5 e5] have
    y: "rest' = dropWhile V r5" "g' = (4, takeWhile V r5) # g5" "takeWhile V r5 \<noteq> []"
    by auto
  have "rest = var @ ws1 @ op @ ws2 @ r5"
    using v w1 o w2 r45 by simp
  moreover have "g' = [(4, takeWhile V r5), (3, []), (2, op), (1, var)]"
    using y q \<open>q = []\<close> w2 o w1 v by simp
  ultimately show ?thesis
    using v w1 o w2 y by blast
qed

lemma illogical_match_shape:
  assumes "(tx, g) \<in> set (re_finditer False illogical_pattern line)"
  shows "\<exists>pre post ws1 ws2.
        line = pre @ tx @ post
        \<and> tx = group_text g 1 @ ws1 @ group_text g 2 @ ws2 @ group_text g 3 @ group_text g 4 @ group_text g 3
        \<and> group_text g 1 \<noteq> [] \<and> list_all is_word (group_text g 1) \<and> list_all is_space ws1
        \<and> group_text g 2 \<in> set [''=='', ''!='', ''>'', ''<''] \<and> list_all is_space ws2
        \<and> (group_text g 3 = [] \<or> (\<exists>c. group_text g 3 = [c] \<and> is_quote c))
        \<and> group_text g 4 \<noteq> [] \<and> list_all is_value_char (group_text g 4)"
proof -
  from re_finditer_match[OF assms] obtain pre p0 adv0 p' rest' where
    l: "line = pre @ tx @ rest'"
    and m: "match_at False illogical_pattern adv0 p0 (tx @ rest') = Some (p', rest', g)"
    by blast
  from match_at_Some[OF m] have
    "(p', rest', g) \<in> set (rx False illogical_pattern (p0, tx @ rest', []))"
    by simp
  from comparison_mem[OF this[unfolded illogical_pattern_def]]
  obtain var ws1 op ws2 q val where
    e: "tx @ rest' = var @ ws1 @ op @ ws2 @ q @ val @ q @ rest'"
    and c: "var \<noteq> []" "list_all is_word var" "list_all is_space ws1"
      "op \<in> set [''=='', ''!='', ''>'', ''<'']" "list_all is_space ws2"
      "q = [] \<or> (\<exists>c. q = [c] \<and> is_quote c)" "val \<noteq> []" "list_all is_value_char val"
    and g: "g = [(4, val), (3, q), (2, op), (1, var)]"
    by blast
  have gr: "group_text g 1 = var" "group_text g 2 = op" "group_text g 3 = q" "group_text g 4 = val"
    unfolding g by (simp_all add: group_text_def)
  from e have "tx @ rest' = (var @ ws1 @ op @ ws2 @ q @ val @ q) @ rest'"
    by simp
  then have "tx = var @ ws1 @ op @ ws2 @ q @ val @ q"
    by (simp only: same_append_eq append_same_eq)
  with l c show ?thesis
    unfolding gr by blast
qed

lemma takeWhile_run_append:
  "list_all C a \<Longrightarrow> takeWhile C (a @ b) = a @ takeWhile C b"
  by (induction a) auto

lemma illogical_unquoted_maximal:
  assumes "(tx, g) \<in> set (re_finditer False illogical_pattern line)" and qe: "group_text g 3 = []"
  shows "\<exists>pre post ws1 ws2.
        line = pre @ tx @ post
        \<and> tx = group_text g 1 @ ws1 @ group_text g 2 @ ws2 @ group_text g 4
        \<and> group_text g 1 \<noteq> [] \<and> list_all is_word (group_text g 1) \<and> list_all is_space ws1
        \<and> group_text g 2 \<in> set [''=='', ''!='', ''>'', ''<''] \<and> list_all is_space ws2
        \<and> group_text g 4 \<noteq> []
        \<and> takeWhile is_value_char (ws2 @ group_text g 4 @ post) = ws2 @ group_text g 4"
proof -
  from re_finditer_match[OF assms(1)] obtain pre p0 adv0 p' rest' where
    l: "line = pre @ tx @ rest'"
    and m: "match_at False illogical_pattern adv0 p0 (tx @ rest') = Some (p', rest', g)"
    by blast
  have shorter: "length r' < length (tx @ rest')"
    if "(q', r', h') \<in> set (rx False illogical_pattern (p0, tx @ rest', []))" for q' r' h'
  proof -
    from comparison_mem[OF that[unfolded illogical_pattern_def]]
    obtain var t where "tx @ rest' = var @ t @ r'" "var \<noteq> []"
      by (metis append.assoc)
    then have "length (tx @ rest') = length var + length t + length r'" "length var \<noteq> 0"
      by (simp_all del: length_append add: length_append[of var] length_append[of t])
    then show ?thesis by simp
  qed
  have "\<exists>ys. rx False illogical_pattern (p0, tx @ rest', []) = (p', rest', g) # ys"
    by (rule match_at_hd[OF _ m]) (rule shorter)
  then obtain ys where
    h: "rx False illogical_pattern (p0, tx @ rest', []) = (p', rest', g) # ys"
    by blast
  then have "(p', rest', g) \<in> set (rx False illogical_pattern (p0, tx @ rest', []))"
    by simp
  from comparison_mem[OF this[unfolded illogical_pattern_def]]
  obtain q val op var where g: "g = [(4, val), (3, q), (2, op), (1, var)]"
    by blast
  then have "map_of g 3 = Some q" "group_text g 3 = q"
    by (simp_all add: group_text_def)
  with qe have e: "map_of g 3 = Some []"
    by simp
  from comparison_hd[OF h[unfolded illogical_pattern_def] e]
  obtain var ws1 op ws2 r5 where
    r: "tx @ rest' = var @ ws1 @ op @ ws2 @ r5"
    and c: "var \<noteq> []" "list_all is_word var" "list_all is_space ws1"
      "op \<in> set [''=='', ''!='', ''>'', ''<'']" "list_all is_space ws2"
      "takeWhile is_value_char r5 \<noteq> []" "rest' = dropWhile is_value_char r5"
    and g: "g = [(4, takeWhile is_value_char r5), (3, []), (2, op), (1, var)]"
    by blast
  have gr: "group_text g 1 = var" "group_text g 2 = op" "group_text g 4 = takeWhile is_value_char r5"
    unfolding g by (simp_all add: group_text_def)
  have "tx @ rest' = var @ ws1 @ op @ ws2 @ (takeWhile is_value_char r5 @ dropWhile is_value_char r5)"
    using r by simp
  then have "tx @ rest' = (var @ ws1 @ op @ ws2 @ takeWhile is_value_char r5) @ rest'"
    using c(7) by simp
  then have tx: "tx = var @ ws1 @ op @ ws2 @ takeWhile is_value_char r5"
    by (simp only: append_same_eq)
  have v2: "list_all is_value_char ws2"
    using c(5) by (simp add: list_all_iff is_value_char_def)
  have "takeWhile is_value_char (ws2 @ takeWhile is_value_char r5 @ rest')
          = ws2 @ takeWhile is_value_char r5"
    unfolding c(7) by (simp add: takeWhile_run_append[OF v2])
  with l tx c show ?thesis
    unfolding gr by blast
qed

subsection \<open>A line with one comparison\<close>

text \<open>
  Every operator of the pattern starts with one of the characters \<^verbatim>\<open>=\<close>, \<^verbatim>\<open>!\<close>, \<^verbatim>\<open>>\<close>,
  \<^verbatim>\<open><\<close>, so a text without them holds no comparison. When these characters occur only in
  the operator of one comparison, the detector reads exactly that comparison.
\<close>

lemma space_not_word: "is_space c \<Longrightarrow> \<not> is_word c"
  by (auto simp: is_space_def is_word_def is_lower_def is_upper_def is_digit_def char_code_def)

lemma operator_char: "c \<in> set ''=!><'' \<Longrightarrow> \<not> is_word c \<and> \<not> is_space c"
  by (auto simp: is_space_def is_word_def is_lower_def is_upper_def is_digit_def char_code_def)

lemma quote_char: "is_quote c \<Longrightarrow> \<not> is_value_char c \<and> \<not> is_space c"
  by (auto simp: is_quote_def is_value_char_def is_space_def is_word_def is_lower_def is_upper_def
      is_digit_def char_code_def)

lemma operator_hd:
  "op \<in> set [''=='', ''!='', ''>'', ''<''] \<Longrightarrow> op \<noteq> [] \<and> hd op \<in> set ''=!><''"
  by auto

lemma no_match_without_operator:
  assumes "set b \<inter> set ''=!><'' = {}"
  shows "rx False illogical_pattern (p, b, []) = []"
proof (rule ccontr)
  assume "rx False illogical_pattern (p, b, []) \<noteq> []"
  then obtain st where "st \<in> set (rx False illogical_pattern (p, b, []))"
    by (cases "rx False illogical_pattern (p, b, [])") auto
  then obtain p' r' g' where "(p', r', g') \<in> set (rx False illogical_pattern (p, b, []))"
    by (metis prod_cases3)
  from comparison_mem[OF this[unfolded illogical_pattern_def]]
  obtain var ws1 op t where b: "b = var @ ws1 @ op @ t"
    and op: "op \<in> set [''=='', ''!='', ''>'', ''<'']"
    by blast
  from operator_hd[OF op] have "hd op \<in> set op" "hd op \<in> set ''=!><''"
    by simp_all
  then have "hd op \<in> set b \<inter> set ''=!><''"
    unfolding b by simp
  with assms show False
    by blast
qed

lemma dropWhile_keeps: "\<not> C x \<Longrightarrow> set t \<subseteq> set (dropWhile C (bs @ x # t))"
  by (induction bs) auto

lemma no_match_before:
  assumes pre: "set b \<inter> set ''=!><'' = {}" "b \<noteq> []" "\<not> is_word (last b)"
    and tok: "tok \<noteq> []" "list_all is_word tok"
    and ws1: "list_all is_space ws1"
    and op: "op \<in> set [''=='', ''!='', ''>'', ''<'']"
  shows "rx False illogical_pattern (p, b @ tok @ ws1 @ op @ rest, []) = []"
proof (rule ccontr)
  let ?N = "\<lambda>c. c \<notin> set ''=!><''"
  assume "rx False illogical_pattern (p, b @ tok @ ws1 @ op @ rest, []) \<noteq> []"
  then obtain st where "st \<in> set (rx False illogical_pattern (p, b @ tok @ ws1 @ op @ rest, []))"
    by (cases "rx False illogical_pattern (p, b @ tok @ ws1 @ op @ rest, [])") auto
  then obtain p' r' g' where
    "(p', r', g') \<in> set (rx False illogical_pattern (p, b @ tok @ ws1 @ op @ rest, []))"
    by (metis prod_cases3)
  from comparison_mem[OF this[unfolded illogical_pattern_def]]
  obtain var w1 op' t where e: "b @ tok @ ws1 @ op @ rest = var @ w1 @ op' @ t"
    and v: "var \<noteq> []" "list_all is_word var" "list_all is_space w1"
    and o: "op' \<in> set [''=='', ''!='', ''>'', ''<'']"
    by blast
  have l: "list_all ?N (b @ tok @ ws1)"
    using pre(1) tok(2) ws1 operator_char by (auto simp: list_all_iff)
  have r: "list_all ?N (var @ w1)"
    using v(2,3) operator_char by (auto simp: list_all_iff)
  have "takeWhile ?N ((b @ tok @ ws1) @ op @ rest) = b @ tok @ ws1"
    using takeWhile_exact[OF l, of "op @ rest"] operator_hd[OF op] by simp
  moreover have "takeWhile ?N ((var @ w1) @ op' @ t) = var @ w1"
    using takeWhile_exact[OF r, of "op' @ t"] operator_hd[OF o] by simp
  ultimately have eq: "b @ tok @ ws1 = var @ w1"
    using e by simp
  have "w1 = [] \<or> \<not> is_word (hd w1)"
    using v(3) space_not_word by (cases w1) auto
  from takeWhile_exact[OF v(2) this] have dw: "dropWhile is_word (b @ tok @ ws1) = w1"
    unfolding eq by simp
  have "b = butlast b @ [last b]"
    using pre(2) by simp
  then have bb: "b @ tok @ ws1 = butlast b @ last b # (tok @ ws1)"
    by (metis append.assoc append_Cons append_Nil)
  have "set (tok @ ws1) \<subseteq> set (dropWhile is_word (b @ tok @ ws1))"
    unfolding bb by (rule dropWhile_keeps) (rule pre(3))
  then have "hd tok \<in> set w1"
    unfolding dw using tok(1) by auto
  then have "is_space (hd tok)"
    using v(3) by (simp add: list_all_iff)
  moreover have "is_word (hd tok)"
    using tok by (cases tok) auto
  ultimately show False
    using space_not_word by blast
qed

lemma one_comparison:
  assumes pre: "set pre \<inter> set ''=!><'' = {}" "pre = [] \<or> \<not> is_word (last pre)"
    and tok: "tok \<noteq> []" "list_all is_word tok"
    and ws: "list_all is_space ws1" "list_all is_space ws2"
    and op: "op \<in> set [''=='', ''!='', ''>'', ''<'']"
    and q: "(q = [] \<and> \<not> is_space (hd val) \<and> (post = [] \<or> \<not> is_value_char (hd post)))
            \<or> (\<exists>c. q = [c] \<and> is_quote c)"
    and val: "val \<noteq> []" "list_all is_value_char val"
    and post: "set post \<inter> set ''=!><'' = {}"
  shows "re_finditer False illogical_pattern (pre @ tok @ ws1 @ op @ ws2 @ q @ val @ q @ post)
           = [(tok @ ws1 @ op @ ws2 @ q @ val @ q, [(4, val), (3, q), (2, op), (1, tok)])]"
proof -
  let ?tx = "tok @ ws1 @ op @ ws2 @ q @ val @ q"
  let ?g = "[(4::nat, val), (3, q), (2, op), (1, tok)]"
  have hv: "is_value_char (hd val)"
    using val by (cases val) auto
  have a1: "\<not> is_word (hd (ws1 @ op))"
    using ws(1) operator_hd[OF op] operator_char space_not_word by (cases ws1) auto
  have a2: "\<not> is_space (hd op)" "op \<noteq> []"
    using operator_hd[OF op] operator_char by auto
  have a3: "\<not> is_space (hd (q @ val))"
    using q quote_char by auto
  have a4: "(q = [] \<and> \<not> is_quote (hd val)) \<or> (\<exists>c. q = [c] \<and> is_quote c)"
    using q hv quote_char by auto
  have a5: "q @ post = [] \<or> \<not> is_value_char (hd (q @ post))"
    using q quote_char by auto
  from comparison_fwd[of tok is_word ws1 op is_space "[''=='', ''!='', ''>'', ''<'']" ws2 q val
      is_quote is_value_char post "lastp None pre", OF tok a1 ws(1) a2 rx_ops[OF op] ws(2) a3 a4 val a5]
  obtain ys where
    hit: "rx False illogical_pattern (lastp None pre, ?tx @ post, [])
            = (lastp (lastp None pre) ?tx, post, ?g) # ys"
    unfolding illogical_pattern_def by auto
  have "re_finditer False illogical_pattern (pre @ ?tx @ post) = [(?tx, ?g)]"
  proof (rule finditer_one[OF _ hit])
    fix a b
    assume s: "pre = a @ b" and b: "b \<noteq> []"
    have "set b \<inter> set ''=!><'' = {}" "\<not> is_word (last b)"
      using pre s b by auto
    from no_match_before[OF this(1) b this(2) tok ws(1) op, of "lastp None a" "ws2 @ q @ val @ q @ post"]
    show "rx False illogical_pattern (lastp None a, b @ ?tx @ post, []) = []"
      by simp
  next
    show "?tx \<noteq> []"
      using tok(1) by simp
  next
    fix a b
    assume "post = a @ b"
    then have "set b \<inter> set ''=!><'' = {}"
      using post by auto
    then show "rx False illogical_pattern (lastp (lastp (lastp None pre) ?tx) a, b, []) = []"
      by (rule no_match_without_operator)
  qed
  then show ?thesis
    by simp
qed

lemma detect_one_comparison:
  assumes pre: "set pre \<inter> set ''=!><'' = {}" "pre = [] \<or> \<not> is_word (last pre)"
    and tok: "tok \<noteq> []" "list_all is_word tok"
    and ws: "list_all is_space ws1" "list_all is_space ws2"
    and op: "op \<in> set [''=='', ''!='', ''>'', ''<'']"
    and q: "(q = [] \<and> \<not> is_space (hd val) \<and> (post = [] \<or> \<not> is_value_char (hd post)))
            \<or> (\<exists>c. q = [c] \<and> is_quote c)"
    and val: "val \<noteq> []" "list_all is_value_char val"
    and post: "set post \<inter> set ''=!><'' = {}"
  shows "detect_illogical (pre @ tok @ ws1 @ op @ ws2 @ q @ val @ q @ post)
           = (if q \<noteq> [] then
                (if isdigit (strip val)
                 then [''Comparing string literal '' @ [CHR 0x22] @ val @ [CHR 0x22] @ '' as number''] else [])
              else
                (if isdigit (strip val) then []
                 else [''Comparing unquoted value '' @ val @ '' as string'']))"
  unfolding detect_illogical_def one_comparison[OF assms]
  by (simp add: illogical_of_def group_text_def)


lemma dropWhile_mem: "c \<in> set s \<Longrightarrow> \<not> P c \<Longrightarrow> c \<in> set (dropWhile P s)"
  by (induction s) auto

lemma strip_mem: "c \<in> set s \<Longrightarrow> \<not> is_space c \<Longrightarrow> c \<in> set (strip s)"
  unfolding strip_def using dropWhile_mem[of c "rev (dropWhile is_space s)" is_space]
    dropWhile_mem[of c s is_space] by simp

lemma value_runs_over_then:
  assumes var: "var \<noteq> []" "list_all is_word var"
    and digits: "digits \<noteq> []" "list_all is_digit digits"
    and action: "list_all is_value_char action"
  shows "detect_illogical (var @ '' == '' @ digits @ '' THEN '' @ action)
           = [''Comparing unquoted value '' @ digits @ '' THEN '' @ action @ '' as string'']"
proof -
  let ?val = "digits @ '' THEN '' @ action"
  have sp: "list_all is_space '' ''"
    by (simp add: is_space_def char_code_def)
  have "is_digit (hd digits)"
    using digits by (cases digits) auto
  then have "\<not> is_space (hd digits)"
    by (auto simp: is_digit_def is_space_def)
  then have q: "([] = [] \<and> \<not> is_space (hd ?val) \<and> ([] = [] \<or> \<not> is_value_char (hd [])))
            \<or> (\<exists>c. [] = [c] \<and> is_quote c)"
    using digits(1) by simp
  have "list_all is_value_char digits"
    using digits(2) by (auto simp: list_all_iff is_value_char_def is_word_def)
  moreover have "list_all is_value_char '' THEN ''"
    by (simp add: is_value_char_def is_space_def is_word_def is_upper_def char_code_def)
  ultimately have v: "list_all is_value_char ?val"
    using action by simp
  have ne: "?val \<noteq> []"
    by simp
  have "CHR ''T'' \<in> set ?val" "\<not> is_space CHR ''T''"
    by (simp_all add: is_space_def char_code_def)
  then have "CHR ''T'' \<in> set (strip ?val)"
    by (rule strip_mem)
  moreover have "\<not> is_digit CHR ''T''"
    by (simp add: is_digit_def char_code_def)
  ultimately have nd: "\<not> isdigit (strip ?val)"
    by (auto simp: isdigit_def list_all_iff)
  have "detect_illogical ([] @ var @ '' '' @ ''=='' @ '' '' @ [] @ ?val @ [] @ [])
          = (if [] \<noteq> ([]::string) then
                (if isdigit (strip ?val)
                 then [''Comparing string literal '' @ [CHR 0x22] @ ?val @ [CHR 0x22] @ '' as number''] else [])
              else
                (if isdigit (strip ?val) then []
                 else [''Comparing unquoted value '' @ ?val @ '' as string'']))"
    by (rule detect_one_comparison[OF _ _ var sp sp _ q ne v]) simp_all
  then show ?thesis
    using nd by simp
qed

subsection \<open>Substitution, one position at a time\<close>

text \<open>\<^verbatim>\<open>re.sub\<close> from an arbitrary position of the loop.\<close>

definition subst_from :: "bool \<Rightarrow> regex \<Rightarrow> piece list \<Rightarrow> bool \<Rightarrow> char option \<Rightarrow> string \<Rightarrow> string" where
  "subst_from ic r repl adv p s =
     (case scan ic r adv p s of
        (ms, tail) \<Rightarrow> concat (map (\<lambda>(gap, tx, g). gap @ expand repl g) ms) @ tail)"

lemma re_sub_subst_from: "re_sub ic r repl s = subst_from ic r repl False None s"
  by (simp add: re_sub_def subst_from_def)

lemma subst_from_Nil:
  "match_at ic r adv p [] = None \<Longrightarrow> subst_from ic r repl adv p [] = []"
  by (simp add: subst_from_def scan.simps[of ic r adv p "[]"])

lemma subst_from_skip:
  assumes "match_at ic r adv p (c # cs) = None"
  shows "subst_from ic r repl adv p (c # cs) = c # subst_from ic r repl False (Some c) cs"
proof (cases "search ic r False (Some c) cs")
  case None
  then have "search ic r adv p (c # cs) = None"
    using assms by simp
  with None show ?thesis
    by (simp add: subst_from_def scan.simps[of ic r adv p "c # cs"]
        scan.simps[of ic r False "Some c" cs])
next
  case (Some a)
  obtain gap tx p' rest' g where a: "a = (gap, tx, (p', rest', g))"
    by (metis prod_cases3)
  have "search ic r adv p (c # cs) = Some (c # gap, tx, (p', rest', g))"
    using assms Some a by simp
  with Some a show ?thesis
    by (simp add: subst_from_def scan.simps[of ic r adv p "c # cs"]
        scan.simps[of ic r False "Some c" cs] split: prod.splits)
qed

lemma subst_from_hit:
  assumes m: "match_at ic r adv p (c # cs) = Some (p', rest', g)" and ne: "length rest' < length (c # cs)"
  shows "subst_from ic r repl adv p (c # cs) = expand repl g @ subst_from ic r repl False p' rest'"
proof -
  let ?tx = "take (length (c # cs) - length rest') (c # cs)"
  have s: "search ic r adv p (c # cs) = Some ([], ?tx, (p', rest', g))"
    using m by simp
  have "?tx \<noteq> []"
    using ne by simp
  then have e: "(?tx = []) = False"
    by simp
  show ?thesis
    by (simp only: subst_from_def scan.simps[of ic r adv p "c # cs"] s option.case prod.case e
        split: prod.splits) simp
qed

lemma upper_not_lower_or_digit: "is_upper d \<Longrightarrow> \<not> (is_lower d \<or> is_digit d)"
  by (auto simp: is_upper_def is_lower_def is_digit_def)

lemma rx_camel:
  "rx False (Seq (Grp 1 (Cls L)) (Grp 2 (Cls U))) (p, s, []) =
     (case s of
        c # d # cs \<Rightarrow> if L c \<and> U d then [(Some d, cs, [(2, [d]), (1, [c])])] else []
      | _ \<Rightarrow> [])"
  by (auto split: list.splits)

lemma match_at_camel:
  "match_at False (Seq (Grp 1 (Cls L)) (Grp 2 (Cls U))) adv p s =
     (case s of
        c # d # cs \<Rightarrow> if L c \<and> U d then Some (Some d, cs, [(2, [d]), (1, [c])]) else None
      | _ \<Rightarrow> None)"
  unfolding match_at_def rx_camel by (auto split: list.splits)

lemma match_at_run:
  "match_at ic (Many1 C) adv p s =
     (if takeWhile C s = [] then None
      else Some (lastp p (takeWhile C s), dropWhile C s, []))"
proof -
  let ?f = "\<lambda>j. (lastp p (take j s), drop j s, [])"
  let ?N = "length (takeWhile C s)"
  let ?P = "\<lambda>(p', rest', g). \<not> adv \<or> length rest' < length s"
  have r: "rx ic (Many1 C) (p, s, []) = rev (map ?f [Suc 0..<Suc ?N])"
    unfolding rx.simps ups_closed by (simp add: map_tl[symmetric] del: upt_Suc)
  show ?thesis
  proof (cases "takeWhile C s = []")
    case True
    then show ?thesis
      unfolding match_at_def r by simp
  next
    case False
    then have pos: "Suc 0 \<le> ?N"
      by (simp add: Suc_le_eq)
    then have "[Suc 0..<Suc ?N] = [Suc 0..<?N] @ [?N]"
      by simp
    then have "rx ic (Many1 C) (p, s, []) = ?f ?N # rev (map ?f [Suc 0..<?N])"
      unfolding r by simp
    moreover have "?N \<le> length s"
      by (rule length_takeWhile_le)
    then have "?P (?f ?N)"
      using pos by auto
    ultimately have "match_at ic (Many1 C) adv p s = Some (?f ?N)"
      unfolding match_at_def by simp
    moreover have "take ?N s = takeWhile C s" "drop ?N s = dropWhile C s"
      using takeWhile_eq_take[of C s] dropWhile_eq_drop[of C s] by simp_all
    ultimately show ?thesis
      using False by simp
  qed
qed

section \<open>The examples of the specification, run on the code\<close>

text \<open>
  C1. The specification expects the line
  \<^verbatim>\<open>IF user_type IS "admin" AND user_type IS "admin" THEN grant_access\<close> to be
  reported as a redundant condition. On the code the two conditions compared are
  \<^verbatim>\<open>IF user_type == "admin"\<close> and \<^verbatim>\<open>user_type == "admin"\<close>: the leading keyword stays in
  the first one, they differ, no detector fires, and the normalized line is printed.
\<close>

theorem example1_prints_normalized_line:
  \<open>detect_redundancy ''IF user_type == "admin" AND user_type == "admin" THEN grant_access'' = []
   \<and> process_line ''IF user_type IS "admin" AND user_type IS "admin" THEN grant_access''
       = [''IF user_type == "admin" AND user_type == "admin" THEN grant_access'']\<close>
  by code_simp

text \<open>
  C2. The specification expects the line \<^verbatim>\<open>IF ID_of_user > 100 THEN allow\<close> to come out
  as its normalized text with no finding. The alias is canonicalized as expected, but
  the illogical-comparison detector then reads \<^verbatim>\<open>100 THEN allow\<close> as the compared value
  and flags the line.
\<close>

theorem example2_is_flagged:
  "normalize ''IF ID_of_user > 100 THEN allow'' = ''IF user_id > 100 THEN allow''
   \<and> process_line ''IF ID_of_user > 100 THEN allow''
       = [''FLAG: Illogical comparison: Comparing unquoted value 100 THEN allow as string in line: IF ID_of_user > 100 THEN allow'']"
  by code_simp

text \<open>
  C3. The composed normalization is not idempotent. On \<^verbatim>\<open>n OR n o\<close> the variable pass
  takes \<^verbatim>\<open>"n "\<close> (with its space) as a name and replaces every whole-word occurrence
  of it by \<^verbatim>\<open>n\<close>, which gives \<^verbatim>\<open>nOR no\<close>; a second run then reads the new word
  \<^verbatim>\<open>no\<close> as a keyword and gives \<^verbatim>\<open>nOR FALSE\<close>.
\<close>

theorem normalize_not_idempotent:
  "normalize ''n OR n o'' = ''nOR no''
   \<and> normalize (normalize ''n OR n o'') = ''nOR FALSE''
   \<and> normalize (normalize ''n OR n o'') \<noteq> normalize ''n OR n o''"
proof -
  have a: "normalize ''n OR n o'' = ''nOR no''"
    by code_simp
  have b: "normalize ''nOR no'' = ''nOR FALSE''"
    by code_simp
  show ?thesis
    unfolding a b by simp
qed

text \<open>
  C4. Alias equivalence fails. \<^verbatim>\<open>type_of_user\<close> is a registered alias of
  \<^verbatim>\<open>user_type\<close>, but the lines \<^verbatim>\<open>IF user_type AND x\<close> and \<^verbatim>\<open>IF type_of_user AND x\<close>
  normalize to different texts and are flagged with different tokens: the variable
  pass takes the keyword, the name and the space before \<^verbatim>\<open>AND\<close> as one identifier and
  glues its snake-case form to the connective, after which the alias sweep no longer
  finds the alias as a whole word.
\<close>

theorem alias_lines_differ:
  "(''user_type'', [''UserType'', ''user_type'', ''type_of_user'', ''User_Type'', ''uset_type'']) \<in> set VAR_SYNONYMS
   \<and> normalize ''IF user_type AND x'' = ''if_user_typeAND x''
   \<and> normalize ''IF type_of_user AND x'' = ''if_type_of_userAND x''
   \<and> process_line ''IF user_type AND x''
       = [''FLAG: Potential typo(s) in variable name(s): if_user_typeAND in line: IF user_type AND x'']
   \<and> process_line ''IF type_of_user AND x''
       = [''FLAG: Potential typo(s) in variable name(s): if_type_of_userAND in line: IF type_of_user AND x'']"
  by code_simp

section \<open>The priority of the detectors\<close>

text \<open>
  The dispatch as the specification words it: the four detectors in the fixed order
  redundancy, contradiction, typo, illogical comparison, each giving a finding or
  nothing; the first finding is the only one reported, in the output format of the
  specification, and the normalized line is printed when there is none.
\<close>

datatype finding = Redundant string | Contradiction | Typo "string list" | Illogical "string list"

definition redundancy_finding :: "string \<Rightarrow> finding option" where
  "redundancy_finding l = (case detect_redundancy l of [] \<Rightarrow> None | r # _ \<Rightarrow> Some (Redundant r))"

definition contradiction_finding :: "string \<Rightarrow> finding option" where
  "contradiction_finding l = (if detect_contradiction l then Some Contradiction else None)"

definition typo_finding :: "string \<Rightarrow> finding option" where
  "typo_finding l = (if detect_typos l = [] then None else Some (Typo (detect_typos l)))"

definition illogical_finding :: "string \<Rightarrow> finding option" where
  "illogical_finding l = (if detect_illogical l = [] then None else Some (Illogical (detect_illogical l)))"

definition first_finding :: "string \<Rightarrow> finding option" where
  "first_finding l =
     (case List.map_filter (\<lambda>d. d l)
             [redundancy_finding, contradiction_finding, typo_finding, illogical_finding] of
        [] \<Rightarrow> None
      | f # _ \<Rightarrow> Some f)"

fun render :: "finding \<Rightarrow> string \<Rightarrow> string" where
  "render (Redundant atom) orig = ''FLAG: Redundant condition '' @ [CHR 0x27] @ atom @ [CHR 0x27] @ '' in line: '' @ orig"
| "render Contradiction orig = ''FLAG: Contradictory/unreachable logic in line: '' @ orig"
| "render (Typo ts) orig = ''FLAG: Potential typo(s) in variable name(s): '' @ join '', '' ts @ '' in line: '' @ orig"
| "render (Illogical ds) orig = ''FLAG: Illogical comparison: '' @ join '', '' ds @ '' in line: '' @ orig"

definition output_of :: "string \<Rightarrow> string" where
  "output_of line0 =
     (case first_finding (normalize (strip line0)) of
        None \<Rightarrow> normalize (strip line0)
      | Some f \<Rightarrow> render f (strip line0))"

text \<open>
  C5. For every line \<^verbatim>\<open>process_line\<close> returns exactly one output line: the rendering of
  the first finding in the order redundancy, contradiction, typo, illogical comparison,
  or the normalized line when no detector fires. In particular a redundancy is
  reported whatever the later detectors find.
\<close>

theorem process_line_first_finding_wins:
  "process_line line0 = [output_of line0]
   \<and> length (process_line line0) = 1
   \<and> (detect_redundancy (normalize (strip line0)) \<noteq> [] \<longrightarrow>
        process_line line0 = [render (Redundant (hd (detect_redundancy (normalize (strip line0))))) (strip line0)])
   \<and> (first_finding (normalize (strip line0)) = None \<longrightarrow> process_line line0 = [normalize (strip line0)])"
proof -
  let ?l = "normalize (strip line0)"
  have a: "process_line line0 = [output_of line0]"
    by (cases "detect_redundancy ?l")
      (simp_all add: process_line_def output_of_def first_finding_def List.map_filter_simps
        redundancy_finding_def contradiction_finding_def typo_finding_def illogical_finding_def Let_def)
  have b: "output_of line0 = render (Redundant (hd (detect_redundancy ?l))) (strip line0)"
    if "detect_redundancy ?l \<noteq> []"
    using that by (cases "detect_redundancy ?l")
      (simp_all add: output_of_def first_finding_def List.map_filter_simps redundancy_finding_def)
  have c: "output_of line0 = ?l" if "first_finding ?l = None"
    using that by (simp add: output_of_def)
  show ?thesis
    using a b c by simp
qed

text \<open>
  The line \<^verbatim>\<open>userNmae == 1 AND userNmae == 1\<close> has a repeated condition and two flagged
  tokens; only the redundancy is reported.
\<close>

theorem process_line_first_finding_wins_witness:
  "detect_redundancy (normalize (strip ''userNmae == 1 AND userNmae == 1'')) \<noteq> []
   \<and> detect_typos (normalize (strip ''userNmae == 1 AND userNmae == 1'')) = [''userNmae'', ''userNmae'']
   \<and> process_line ''userNmae == 1 AND userNmae == 1''
       = [''FLAG: Redundant condition 'userNmae == 1' in line: userNmae == 1 AND userNmae == 1'']"
proof -
  let ?L = "''userNmae == 1 AND userNmae == 1''"
  have s: "strip ?L = ?L"
    by code_simp
  have n: "normalize ?L = ?L"
    by code_simp
  have r: "detect_redundancy ?L = [''userNmae == 1'']"
    by code_simp
  have t: "detect_typos ?L = [''userNmae'', ''userNmae'']"
    by code_simp
  from process_line_first_finding_wins[of ?L]
  have "detect_redundancy (normalize (strip ?L)) \<noteq> [] \<longrightarrow>
          process_line ?L = [render (Redundant (hd (detect_redundancy (normalize (strip ?L))))) (strip ?L)]"
    by blast
  then have "process_line ?L = [render (Redundant ''userNmae == 1'') ?L]"
    unfolding s n r by simp
  then show ?thesis
    unfolding s n r t by simp
qed

section \<open>The typo detector\<close>

text \<open>
  A token is known when its lowercase form is the lowercase form of a canonical name
  or of an alias of the table.
\<close>

definition known_name :: "string \<Rightarrow> bool" where
  "known_name t =
     (lower t \<in> set (map lower (map fst VAR_SYNONYMS))
      \<or> lower t \<in> set (map lower (concat (map snd VAR_SYNONYMS))))"

lemma ALL_VAR_NAMES_aliases:
  "ALL_VAR_NAMES = set (map lower (concat (map snd VAR_SYNONYMS)))"
proof -
  have "set (concat (map (\<lambda>(canon, syns). map lower syns) T)) = set (map lower (concat (map snd T)))"
    for T :: "(string \<times> string list) list"
    by (induction T) auto
  then show ?thesis
    by (simp only: ALL_VAR_NAMES_def)
qed

lemma dom_VAR_CANONICAL: "dom VAR_CANONICAL = ALL_VAR_NAMES"
proof -
  have "fst ` set (concat (map (\<lambda>(canon, syns). map (\<lambda>s. (lower s, canon)) syns) T))
          = set (concat (map (\<lambda>(canon, syns). map lower syns) T))"
    for T :: "(string \<times> string list) list"
    by (induction T) (auto simp: image_Un image_image)
  then show ?thesis
    by (simp add: VAR_CANONICAL_def ALL_VAR_NAMES_def dom_map_of_conv_image_fst)
qed

lemma canonical_names_are_aliases:
  "set (map fst VAR_SYNONYMS) \<subseteq> set (concat (map snd VAR_SYNONYMS))"
proof -
  have a: "list_all (\<lambda>(canon, syns). canon \<in> set syns) VAR_SYNONYMS"
    by code_simp
  have "list_all (\<lambda>(canon, syns). canon \<in> set syns) T \<Longrightarrow> set (map fst T) \<subseteq> set (concat (map snd T))"
    for T :: "(string \<times> string list) list"
    by (induction T) auto
  from this[OF a] show ?thesis .
qed

lemma known_name_iff:
  "known_name t \<longleftrightarrow> lower t \<in> ALL_VAR_NAMES \<or> lower t \<in> dom VAR_CANONICAL"
proof -
  let ?A = "set (map lower (map fst VAR_SYNONYMS))"
  let ?B = "set (map lower (concat (map snd VAR_SYNONYMS)))"
  have "lower ` set (map fst VAR_SYNONYMS) \<subseteq> lower ` set (concat (map snd VAR_SYNONYMS))"
    using canonical_names_are_aliases by (rule image_mono)
  then have sub: "?A \<subseteq> ?B"
    by (simp only: set_map)
  have "known_name t \<longleftrightarrow> lower t \<in> ?A \<or> lower t \<in> ?B"
    by (simp only: known_name_def)
  also have "\<dots> \<longleftrightarrow> lower t \<in> ?B"
    using sub by blast
  also have "\<dots> \<longleftrightarrow> lower t \<in> ALL_VAR_NAMES \<or> lower t \<in> dom VAR_CANONICAL"
    by (simp only: dom_VAR_CANONICAL ALL_VAR_NAMES_aliases) simp
  finally show ?thesis .
qed

lemma mixed_case_iff:
  "\<not> isupper t \<and> \<not> islower t \<longleftrightarrow> (list_ex is_upper t \<longleftrightarrow> list_ex is_lower t)"
  by (auto simp: isupper_def islower_def)

text \<open>
  C6, as amended. A token of the line is flagged exactly when it is not a known name,
  is longer than four characters, and is neither all-uppercase nor all-lowercase in
  the sense of \<^verbatim>\<open>str.isupper\<close> and \<^verbatim>\<open>str.islower\<close>: it has both an uppercase and a
  lowercase letter, or no letter at all. Tokens of at most four characters,
  all-uppercase tokens and all-lowercase tokens are never flagged.
\<close>

theorem typo_flag_iff:
  "(t \<in> set (detect_typos line) \<longleftrightarrow>
      t \<in> set (tokens line) \<and> \<not> known_name t \<and> 4 < length t
      \<and> (list_ex is_upper t \<longleftrightarrow> list_ex is_lower t))
   \<and> (length t \<le> 4 \<or> isupper t \<or> islower t \<longrightarrow> t \<notin> set (detect_typos line))"
proof -
  have "t \<in> set (detect_typos line) \<longleftrightarrow>
      t \<in> set (tokens line) \<and> \<not> known_name t \<and> 4 < length t \<and> (\<not> isupper t \<and> \<not> islower t)"
    unfolding detect_typos_def known_name_iff by auto
  then show ?thesis
    unfolding mixed_case_iff[symmetric] by auto
qed

text \<open>In \<^verbatim>\<open>IF userNmae == 1\<close> the mixed-case token is flagged and the keyword is not.\<close>

theorem typo_flag_iff_witness:
  "''userNmae'' \<in> set (detect_typos ''IF userNmae == 1'')
   \<and> ''IF'' \<notin> set (detect_typos ''IF userNmae == 1'')"
proof -
  have a: "''userNmae'' \<in> set (tokens ''IF userNmae == 1'') \<and> \<not> known_name ''userNmae''
      \<and> 4 < length ''userNmae'' \<and> (list_ex is_upper ''userNmae'' \<longleftrightarrow> list_ex is_lower ''userNmae'')"
    by code_simp
  have b: "length ''IF'' \<le> 4"
    by simp
  from typo_flag_iff[of "''userNmae''" "''IF userNmae == 1''"] a
  have "''userNmae'' \<in> set (detect_typos ''IF userNmae == 1'')"
    by blast
  moreover from typo_flag_iff[of "''IF''" "''IF userNmae == 1''"] b
  have "''IF'' \<notin> set (detect_typos ''IF userNmae == 1'')"
    by blast
  ultimately show ?thesis
    by simp
qed

text \<open>
  The claim as stated asks for both an uppercase and a lowercase letter. The token
  \<^verbatim>\<open>_1234\<close> has neither and is flagged.
\<close>

theorem caseless_token_is_flagged:
  "''_1234'' \<in> set (detect_typos ''_1234'')
   \<and> \<not> list_ex is_upper ''_1234'' \<and> \<not> list_ex is_lower ''_1234''"
  by code_simp

section \<open>The illogical-comparison detector\<close>




text \<open>
  C10. The findings of the detector are those of the matches of the pattern, one match
  after the other. When the value of a match is unquoted, the value that is tested and
  echoed is a maximal run of word and whitespace characters: together with the
  whitespace after the operator it is the longest such run that follows the operator.
  It therefore runs over the \<^verbatim>\<open>THEN\<close> keyword and the action: on every line
  \<^verbatim>\<open><var> == <digits> THEN <action>\<close>, with a word for \<^verbatim>\<open><var>\<close> and word and whitespace
  characters in \<^verbatim>\<open><action>\<close>, the detector reports the value \<^verbatim>\<open><digits> THEN <action>\<close>.
  In \<^verbatim>\<open>count == 100 THEN allow\<close> the value is \<^verbatim>\<open>100 THEN allow\<close>, and the line is flagged.
\<close>

theorem unquoted_value_is_maximal_run:
  "detect_illogical line
     = concat (map (\<lambda>(tx, g). illogical_of g) (re_finditer False illogical_pattern line))
   \<and> (\<forall>(tx, g) \<in> set (re_finditer False illogical_pattern line).
      group_text g 3 = [] \<longrightarrow>
        (\<exists>pre post ws1 ws2.
           line = pre @ tx @ post
           \<and> tx = group_text g 1 @ ws1 @ group_text g 2 @ ws2 @ group_text g 4
           \<and> list_all is_space ws1 \<and> list_all is_space ws2
           \<and> group_text g 2 \<in> set [''=='', ''!='', ''>'', ''<'']
           \<and> group_text g 4 \<noteq> []
           \<and> takeWhile is_value_char (ws2 @ group_text g 4 @ post) = ws2 @ group_text g 4)
        \<and> illogical_of g =
             (if isdigit (strip (group_text g 4)) then []
              else [''Comparing unquoted value '' @ group_text g 4 @ '' as string'']))
   \<and> (var \<noteq> [] \<and> list_all is_word var \<and> digits \<noteq> [] \<and> list_all is_digit digits
        \<and> list_all is_value_char action \<longrightarrow>
      detect_illogical (var @ '' == '' @ digits @ '' THEN '' @ action)
        = [''Comparing unquoted value '' @ digits @ '' THEN '' @ action @ '' as string''])
   \<and> map (\<lambda>(tx, g). (group_text g 3, group_text g 4))
         (re_finditer False illogical_pattern ''count == 100 THEN allow'')
       = [([], ''100 THEN allow'')]
   \<and> detect_illogical ''count == 100 THEN allow''
       = [''Comparing unquoted value 100 THEN allow as string'']"
proof -
  have l: "detect_illogical line
     = concat (map (\<lambda>(tx, g). illogical_of g) (re_finditer False illogical_pattern line))"
    by (simp add: detect_illogical_def)
  have a: "case x of (tx, g) \<Rightarrow>
      group_text g 3 = [] \<longrightarrow>
        (\<exists>pre post ws1 ws2.
           line = pre @ tx @ post
           \<and> tx = group_text g 1 @ ws1 @ group_text g 2 @ ws2 @ group_text g 4
           \<and> list_all is_space ws1 \<and> list_all is_space ws2
           \<and> group_text g 2 \<in> set [''=='', ''!='', ''>'', ''<'']
           \<and> group_text g 4 \<noteq> []
           \<and> takeWhile is_value_char (ws2 @ group_text g 4 @ post) = ws2 @ group_text g 4)
        \<and> illogical_of g =
             (if isdigit (strip (group_text g 4)) then []
              else [''Comparing unquoted value '' @ group_text g 4 @ '' as string''])"
    if "x \<in> set (re_finditer False illogical_pattern line)" for x
  proof -
    obtain tx g where x: "x = (tx, g)"
      by (cases x)
    show ?thesis
      unfolding x prod.case
    proof (intro impI conjI)
      assume q: "group_text g 3 = []"
      from illogical_unquoted_maximal[OF that[unfolded x] q]
      show "\<exists>pre post ws1 ws2.
           line = pre @ tx @ post
           \<and> tx = group_text g 1 @ ws1 @ group_text g 2 @ ws2 @ group_text g 4
           \<and> list_all is_space ws1 \<and> list_all is_space ws2
           \<and> group_text g 2 \<in> set [''=='', ''!='', ''>'', ''<'']
           \<and> group_text g 4 \<noteq> []
           \<and> takeWhile is_value_char (ws2 @ group_text g 4 @ post) = ws2 @ group_text g 4"
        by blast
      from q show "illogical_of g =
             (if isdigit (strip (group_text g 4)) then []
              else [''Comparing unquoted value '' @ group_text g 4 @ '' as string''])"
        by (simp add: illogical_of_def Let_def)
    qed
  qed
  have p: "var \<noteq> [] \<and> list_all is_word var \<and> digits \<noteq> [] \<and> list_all is_digit digits
        \<and> list_all is_value_char action \<longrightarrow>
      detect_illogical (var @ '' == '' @ digits @ '' THEN '' @ action)
        = [''Comparing unquoted value '' @ digits @ '' THEN '' @ action @ '' as string'']"
    using value_runs_over_then[of var digits action] by blast
  have b: "map (\<lambda>(tx, g). (group_text g 3, group_text g 4))
         (re_finditer False illogical_pattern ''count == 100 THEN allow'')
       = [([], ''100 THEN allow'')]"
    by code_simp
  have c: "detect_illogical ''count == 100 THEN allow''
       = [''Comparing unquoted value 100 THEN allow as string'']"
    by code_simp
  from l a p b c show ?thesis
    by blast
qed

text \<open>
  In \<^verbatim>\<open>n >  7 DO it; x\<close> the value runs from \<^verbatim>\<open>7\<close> to the semicolon, the first character
  that is neither a word character nor whitespace; in \<^verbatim>\<open>user_id == 42 THEN grant access\<close>
  it runs to the end of the line.
\<close>

theorem unquoted_value_is_maximal_run_witness:
  "re_finditer False illogical_pattern ''n >  7 DO it; x''
     = [(''n >  7 DO it'', [(4, ''7 DO it''), (3, []), (2, ''>''), (1, ''n'')])]
   \<and> (\<exists>pre post ws1 ws2.
         ''n >  7 DO it; x'' = pre @ ''n >  7 DO it'' @ post
         \<and> ''n >  7 DO it'' = ''n'' @ ws1 @ ''>'' @ ws2 @ ''7 DO it''
         \<and> takeWhile is_value_char (ws2 @ ''7 DO it'' @ post) = ws2 @ ''7 DO it'')
   \<and> illogical_of [(4, ''7 DO it''), (3, []), (2, ''>''), (1, ''n'')]
       = [''Comparing unquoted value 7 DO it as string'']
   \<and> detect_illogical ''n >  7 DO it; x'' = [''Comparing unquoted value 7 DO it as string'']
   \<and> detect_illogical ''user_id == 42 THEN grant access''
       = [''Comparing unquoted value 42 THEN grant access as string'']"
proof -
  let ?L = "''n >  7 DO it; x''"
  let ?g = "[(4::nat, ''7 DO it''), (3, []), (2, ''>''), (1, ''n'')]"
  have m: "re_finditer False illogical_pattern ?L = [(''n >  7 DO it'', ?g)]"
    by code_simp
  then have i: "(''n >  7 DO it'', ?g) \<in> set (re_finditer False illogical_pattern ?L)"
    by simp
  have q: "group_text ?g 3 = []"
    by code_simp
  have v: "group_text ?g 1 = ''n''" "group_text ?g 2 = ''>''" "group_text ?g 4 = ''7 DO it''"
    by code_simp+
  have d: "\<not> isdigit (strip ''7 DO it'')"
    by code_simp
  have h: "''user_id'' \<noteq> [] \<and> list_all is_word ''user_id'' \<and> ''42'' \<noteq> [] \<and> list_all is_digit ''42''
        \<and> list_all is_value_char ''grant access''"
    by code_simp
  note t = unquoted_value_is_maximal_run[of ?L "''user_id''" "''42''" "''grant access''"]
  from t i q
  have "(\<exists>pre post ws1 ws2.
           ?L = pre @ ''n >  7 DO it'' @ post
           \<and> ''n >  7 DO it'' = group_text ?g 1 @ ws1 @ group_text ?g 2 @ ws2 @ group_text ?g 4
           \<and> list_all is_space ws1 \<and> list_all is_space ws2
           \<and> group_text ?g 2 \<in> set [''=='', ''!='', ''>'', ''<'']
           \<and> group_text ?g 4 \<noteq> []
           \<and> takeWhile is_value_char (ws2 @ group_text ?g 4 @ post) = ws2 @ group_text ?g 4)
        \<and> illogical_of ?g =
             (if isdigit (strip (group_text ?g 4)) then []
              else [''Comparing unquoted value '' @ group_text ?g 4 @ '' as string''])"
    by blast
  then have e: "(\<exists>pre post ws1 ws2.
           ?L = pre @ ''n >  7 DO it'' @ post
           \<and> ''n >  7 DO it'' = ''n'' @ ws1 @ ''>'' @ ws2 @ ''7 DO it''
           \<and> takeWhile is_value_char (ws2 @ ''7 DO it'' @ post) = ws2 @ ''7 DO it'')
        \<and> illogical_of ?g = [''Comparing unquoted value '' @ ''7 DO it'' @ '' as string'']"
    unfolding v using d by auto
  from t have "detect_illogical ?L
     = concat (map (\<lambda>(tx, g). illogical_of g) (re_finditer False illogical_pattern ?L))"
    by blast
  with e have f: "detect_illogical ?L = [''Comparing unquoted value 7 DO it as string'']"
    unfolding m by simp
  from t h have "detect_illogical (''user_id'' @ '' == '' @ ''42'' @ '' THEN '' @ ''grant access'')
        = [''Comparing unquoted value '' @ ''42'' @ '' THEN '' @ ''grant access'' @ '' as string'']"
    by blast
  then have k: "detect_illogical ''user_id == 42 THEN grant access''
       = [''Comparing unquoted value 42 THEN grant access as string'']"
    by simp
  from m e f k show ?thesis
    by simp
qed

section \<open>The contradiction detector\<close>




section \<open>The fallback of the variable normalizer\<close>

text \<open>
  The case-style fallback as the specification words it: an underscore between each
  lowercase letter or digit and an uppercase letter that follows it, each run of
  whitespace and hyphens replaced by one underscore, the result in lowercase.
\<close>

fun insert_underscores :: "string \<Rightarrow> string" where
  "insert_underscores [] = []"
| "insert_underscores [c] = [c]"
| "insert_underscores (c # d # cs) =
     (if (is_lower c \<or> is_digit c) \<and> is_upper d then c # CHR ''_'' # insert_underscores (d # cs)
      else c # insert_underscores (d # cs))"

function squeeze_runs :: "string \<Rightarrow> string" where
  "squeeze_runs [] = []"
| "squeeze_runs (c # cs) =
     (if is_separator c then CHR ''_'' # squeeze_runs (dropWhile is_separator cs)
      else c # squeeze_runs cs)"
  by pat_completeness auto
termination
  by (relation "measure length") (auto simp: le_imp_less_Suc length_dropWhile_le)

definition snake_spec :: "string \<Rightarrow> string" where
  "snake_spec s = lower (squeeze_runs (insert_underscores s))"

text \<open>The two substitutions of \<^verbatim>\<open>to_snake_case\<close> compute these two functions.\<close>

lemma subst_camel:
  "subst_from False (Seq (Grp 1 (Cls (\<lambda>c. is_lower c \<or> is_digit c))) (Grp 2 (Cls is_upper)))
     [G 1, T ''_'', G 2] adv p s = insert_underscores s"
proof (induction s arbitrary: adv p rule: insert_underscores.induct)
  case (3 c d cs)
  let ?r = "Seq (Grp 1 (Cls (\<lambda>c. is_lower c \<or> is_digit c))) (Grp 2 (Cls is_upper))"
  let ?t = "[G 1, T ''_'', G 2]"
  show ?case
  proof (cases "(is_lower c \<or> is_digit c) \<and> is_upper d")
    case True
    then have m: "match_at False ?r adv p (c # d # cs) = Some (Some d, cs, [(2, [d]), (1, [c])])"
      by (subst match_at_camel) simp
    have "match_at False ?r False (Some c) (d # cs) = None"
      using True upper_not_lower_or_digit[of d] by (subst match_at_camel) (auto split: list.splits)
    then have k: "subst_from False ?r ?t False (Some c) (d # cs) = d # subst_from False ?r ?t False (Some d) cs"
      by (rule subst_from_skip)
    have "subst_from False ?r ?t adv p (c # d # cs)
            = expand ?t [(2, [d]), (1, [c])] @ subst_from False ?r ?t False (Some d) cs"
      using subst_from_hit[OF m] by simp
    also have "\<dots> = c # CHR ''_'' # d # subst_from False ?r ?t False (Some d) cs"
      by (simp add: group_text_def)
    also have "\<dots> = c # CHR ''_'' # subst_from False ?r ?t False (Some c) (d # cs)"
      using k by simp
    also have "\<dots> = c # CHR ''_'' # insert_underscores (d # cs)"
      using 3(1)[OF True] by simp
    finally show ?thesis
      using True by simp
  next
    case False
    then have "match_at False ?r adv p (c # d # cs) = None"
      by (subst match_at_camel) simp
    then have "subst_from False ?r ?t adv p (c # d # cs) = c # subst_from False ?r ?t False (Some c) (d # cs)"
      by (rule subst_from_skip)
    then show ?thesis
      using False 3(2)[OF False] by simp
  qed
next
  case 1
  have "match_at False (Seq (Grp 1 (Cls (\<lambda>c. is_lower c \<or> is_digit c))) (Grp 2 (Cls is_upper))) adv p [] = None"
    by (subst match_at_camel) simp
  from subst_from_Nil[OF this] show ?case
    by simp
next
  case (2 v)
  let ?r = "Seq (Grp 1 (Cls (\<lambda>c. is_lower c \<or> is_digit c))) (Grp 2 (Cls is_upper))"
  have a: "match_at False ?r adv p [v] = None"
    by (subst match_at_camel) simp
  have b: "match_at False ?r False (Some v) [] = None"
    by (subst match_at_camel) simp
  from subst_from_skip[OF a] subst_from_Nil[OF b] show ?case
    by simp
qed

lemma subst_squeeze:
  "subst_from False (Many1 is_separator) [T ''_''] adv p s = squeeze_runs s"
proof (induction s arbitrary: adv p rule: squeeze_runs.induct)
  case 1
  have "match_at False (Many1 is_separator) adv p [] = None"
    by (simp add: match_at_run)
  from subst_from_Nil[OF this] show ?case
    by simp
next
  case (2 c cs)
  show ?case
  proof (cases "is_separator c")
    case True
    then have m: "match_at False (Many1 is_separator) adv p (c # cs)
        = Some (lastp p (takeWhile is_separator (c # cs)), dropWhile is_separator cs, [])"
      by (simp add: match_at_run)
    have "length (dropWhile is_separator cs) < length (c # cs)"
      by (simp add: le_imp_less_Suc length_dropWhile_le)
    from subst_from_hit[OF m this]
    have "subst_from False (Many1 is_separator) [T ''_''] adv p (c # cs)
            = CHR ''_'' # subst_from False (Many1 is_separator) [T ''_''] False
                (lastp p (takeWhile is_separator (c # cs))) (dropWhile is_separator cs)"
      by simp
    then show ?thesis
      using True 2(1)[OF True] by simp
  next
    case False
    then have "match_at False (Many1 is_separator) adv p (c # cs) = None"
      by (simp add: match_at_run)
    from subst_from_skip[OF this] show ?thesis
      using False 2(2)[OF False] by simp
  qed
qed

lemma to_snake_case_spec: "to_snake_case s = snake_spec s"
  by (simp only: to_snake_case_def snake_spec_def re_sub_subst_from subst_camel subst_squeeze)

text \<open>
  C9, as amended. \<^verbatim>\<open>normalize_var\<close> is total. When the identifier, with its surrounding
  whitespace stripped and its quote characters removed, passes the test of no entry of
  the table (neither as it is, nor in its case-style form, nor case-insensitively),
  the result is the case-style fallback of that stripped and unquoted text.
\<close>

theorem normalize_var_fallback:
  "\<not> list_ex (entry_matches (clean_var var)) VAR_SYNONYMS \<Longrightarrow>
     normalize_var var = snake_spec (clean_var var)"
proof -
  assume "\<not> list_ex (entry_matches (clean_var var)) VAR_SYNONYMS"
  then have "find (entry_matches (clean_var var)) VAR_SYNONYMS = None"
    by (simp add: find_None_iff list_ex_iff)
  then have "normalize_var var = to_snake_case (clean_var var)"
    by (simp add: normalize_var_def Let_def)
  then show ?thesis
    by (simp only: to_snake_case_spec)
qed

text \<open>\<^verbatim>\<open>"orderTotal-net "\<close> matches no entry and becomes \<^verbatim>\<open>order_total_net\<close>.\<close>

theorem normalize_var_fallback_witness:
  "\<not> list_ex (entry_matches (clean_var ''orderTotal-net '')) VAR_SYNONYMS
   \<and> normalize_var ''orderTotal-net '' = ''order_total_net''"
proof -
  have h: "\<not> list_ex (entry_matches (clean_var ''orderTotal-net '')) VAR_SYNONYMS"
    by code_simp
  have s: "snake_spec (clean_var ''orderTotal-net '') = ''order_total_net''"
    by code_simp
  from normalize_var_fallback[OF h] h show ?thesis
    unfolding s by simp
qed

text \<open>
  The claim as stated takes the fallback of the identifier itself. The identifier
  \<^verbatim>\<open>"x "\<close> matches no entry; its fallback is \<^verbatim>\<open>x_\<close>, and \<^verbatim>\<open>normalize_var\<close> returns \<^verbatim>\<open>x\<close>.
\<close>

theorem fallback_is_of_the_cleaned_string:
  "\<not> list_ex (entry_matches ''x '') VAR_SYNONYMS
   \<and> normalize_var ''x '' = ''x''
   \<and> snake_spec ''x '' = ''x_''"
  by code_simp

end
